theory Spec2Isabelle
  imports Complex_Main
begin

section \<open>Strings and the JavaScript runtime\<close>

text \<open>
  A JavaScript string is a sequence of UTF-16 code units; \<open>length\<close>, indexing,
  \<open>includes\<close>, \<open>split\<close> and \<open>===\<close> all work on code units. A code unit is
  modelled as a natural number below \<open>2 ^ 16\<close>.

  Scores are IEEE doubles in the source. The model computes them as exact rationals:
  every score is a quotient of small integers combined with the constants 0.6, 0.7,
  0.8, 0.3 and the weights 5, 3, 2, 1.
\<close>

type_synonym jsstring = "nat list"

definition js :: "string \<Rightarrow> jsstring" where
  "js s = map of_char s"

text \<open>
  The Unicode tables of the runtime are not part of the repository: they are the
  parameters of the model. \<open>normalizeNFC\<close> is \<open>None\<close> on a runtime without
  \<open>String.prototype.normalize\<close>; \<open>unicodeLN\<close> is \<open>None\<close> on a runtime whose regular
  expressions lack Unicode property escapes (the \<open>catch\<close> branch of \<open>normalize\<close>),
  and otherwise decides \<open>\p{L}\<close> or \<open>\p{N}\<close> for a code point.
\<close>

record runtime =
  toLowerCase :: "jsstring \<Rightarrow> jsstring"
  normalizeNFC :: "(jsstring \<Rightarrow> jsstring) option"
  unicodeLN :: "(nat \<Rightarrow> bool) option"

text \<open>ECMAScript \<open>\s\<close> and \<open>trim\<close>: WhiteSpace and LineTerminator code units.\<close>

definition isWhiteSpace :: "nat \<Rightarrow> bool" where
  "isWhiteSpace c \<longleftrightarrow>
     (9 \<le> c \<and> c \<le> 13) \<or> c = 32 \<or> c = 160 \<or> c = 0x1680 \<or>
     (0x2000 \<le> c \<and> c \<le> 0x200A) \<or> c = 0x2028 \<or> c = 0x2029 \<or>
     c = 0x202F \<or> c = 0x205F \<or> c = 0x3000 \<or> c = 0xFEFF"

definition isHighSurrogate :: "nat \<Rightarrow> bool" where
  "isHighSurrogate c \<longleftrightarrow> 0xD800 \<le> c \<and> c \<le> 0xDBFF"

definition isLowSurrogate :: "nat \<Rightarrow> bool" where
  "isLowSurrogate c \<longleftrightarrow> 0xDC00 \<le> c \<and> c \<le> 0xDFFF"

definition codePoint :: "nat \<Rightarrow> nat \<Rightarrow> nat" where
  "codePoint hi lo = 0x10000 + (hi - 0xD800) * 0x400 + (lo - 0xDC00)"

text \<open>
  A single code unit survives \<open>/[^\p{L}\p{N}\s]/gu\<close> when it is a letter, a number or
  white space. A surrogate that is not part of a pair is a code point of category Cs
  and is removed.
\<close>

definition keepUnit :: "(nat \<Rightarrow> bool) \<Rightarrow> nat \<Rightarrow> bool" where
  "keepUnit isLN c \<longleftrightarrow>
     \<not> isHighSurrogate c \<and> \<not> isLowSurrogate c \<and> (isLN c \<or> isWhiteSpace c)"

text \<open>\<open>.replace(/[^\p{L}\p{N}\s]/gu, '')\<close>: with the \<open>u\<close> flag a surrogate pair is one code point.\<close>

fun stripUnicode :: "(nat \<Rightarrow> bool) \<Rightarrow> jsstring \<Rightarrow> jsstring" where
  "stripUnicode isLN [] = []"
| "stripUnicode isLN [c] = (if keepUnit isLN c then [c] else [])"
| "stripUnicode isLN (c # d # s) =
     (if isHighSurrogate c \<and> isLowSurrogate d
      then (if isLN (codePoint c d) then c # d # stripUnicode isLN s else stripUnicode isLN s)
      else if keepUnit isLN c then c # stripUnicode isLN (d # s)
      else stripUnicode isLN (d # s))"

text \<open>\<open>.replace(/[!-/:-@[-`{-~]/g, '')\<close>: the ASCII punctuation of the fallback branch.\<close>

definition asciiPunct :: "nat \<Rightarrow> bool" where
  "asciiPunct c \<longleftrightarrow>
     (33 \<le> c \<and> c \<le> 47) \<or> (58 \<le> c \<and> c \<le> 64) \<or>
     (91 \<le> c \<and> c \<le> 96) \<or> (123 \<le> c \<and> c \<le> 126)"

definition stripAscii :: "jsstring \<Rightarrow> jsstring" where
  "stripAscii s = filter (\<lambda>c. \<not> asciiPunct c) s"

text \<open>\<open>.replace(/\s+/g, ' ')\<close>\<close>

function collapseWhitespace :: "jsstring \<Rightarrow> jsstring" where
  "collapseWhitespace [] = []"
| "collapseWhitespace (c # s) =
     (if isWhiteSpace c then 32 # collapseWhitespace (dropWhile isWhiteSpace s)
      else c # collapseWhitespace s)"
  by pat_completeness auto
termination
  by (relation "measure length") (auto simp: le_imp_less_Suc length_dropWhile_le)

text \<open>\<open>.trim()\<close>\<close>

definition trimStart :: "jsstring \<Rightarrow> jsstring" where
  "trimStart s = dropWhile isWhiteSpace s"

fun trimEnd :: "jsstring \<Rightarrow> jsstring" where
  "trimEnd [] = []"
| "trimEnd (c # s) = (if trimEnd s = [] \<and> isWhiteSpace c then [] else c # trimEnd s)"

definition trim :: "jsstring \<Rightarrow> jsstring" where
  "trim s = trimEnd (trimStart s)"

text \<open>\<open>startsWith\<close>, \<open>includes\<close>, \<open>split(' ')\<close>\<close>

definition startsWith :: "jsstring \<Rightarrow> jsstring \<Rightarrow> bool" where
  "startsWith s p \<longleftrightarrow> take (length p) s = p"

fun includes_str :: "jsstring \<Rightarrow> jsstring \<Rightarrow> bool" where
  "includes_str [] p = (p = [])"
| "includes_str (c # s) p = (startsWith (c # s) p \<or> includes_str s p)"

fun split_space :: "jsstring \<Rightarrow> jsstring list" where
  "split_space [] = [[]]"
| "split_space (c # s) =
     (if c = 32 then [] # split_space s
      else (case split_space s of [] \<Rightarrow> [[c]] | w # ws \<Rightarrow> (c # w) # ws))"

text \<open>\<open>Math.max(...xs)\<close>; \<open>None\<close> stands for \<open>-Infinity\<close>, the value on no arguments.\<close>

fun Math_max :: "rat list \<Rightarrow> rat option" where
  "Math_max [] = None"
| "Math_max (x # xs) = (case Math_max xs of None \<Rightarrow> Some x | Some y \<Rightarrow> Some (max x y))"

text \<open>
  \<open>Array.prototype.sort\<close> with a comparison function: the sort is stable, which for a
  consistent comparison function fixes the result; it is modelled as insertion sort.
\<close>

fun insert_by :: "('a \<Rightarrow> 'a \<Rightarrow> rat) \<Rightarrow> 'a \<Rightarrow> 'a list \<Rightarrow> 'a list" where
  "insert_by cmp x [] = [x]"
| "insert_by cmp x (y # ys) =
     (if cmp x y \<le> 0 then x # y # ys else y # insert_by cmp x ys)"

definition sort_by :: "('a \<Rightarrow> 'a \<Rightarrow> rat) \<Rightarrow> 'a list \<Rightarrow> 'a list" where
  "sort_by cmp xs = foldr (insert_by cmp) xs []"

text \<open>\<open>xs.slice(0, end)\<close> for an integer \<open>e\<close>: a negative \<open>e\<close> counts from the back.\<close>

definition slice0 :: "int \<Rightarrow> 'a list \<Rightarrow> 'a list" where
  "slice0 e xs =
     (let len = int (length xs);
          k = (if e < 0 then max (len + e) 0 else min e len)
      in take (nat k) xs)"

text \<open>\<open>[...new Set(xs)]\<close>: the distinct elements in order of first insertion.\<close>

definition set_insertion_order :: "'a list \<Rightarrow> 'a list" where
  "set_insertion_order xs = fold (\<lambda>x seen. if x \<in> set seen then seen else seen @ [x]) xs []"

section \<open>FuzzySearch\<close>

text \<open>
  The matrix has \<open>str2.length + 1\<close> rows of \<open>str1.length + 1\<close> cells. The cells start as
  \<open>null\<close>, which JavaScript arithmetic reads as 0; every cell is written before it is read.
\<close>

definition set_cell :: "nat list list \<Rightarrow> nat \<Rightarrow> nat \<Rightarrow> nat \<Rightarrow> nat list list" where
  "set_cell matrix j i v = matrix[j := (matrix ! j)[i := v]]"

definition lev_cell :: "jsstring \<Rightarrow> jsstring \<Rightarrow> nat \<Rightarrow> nat \<Rightarrow> nat list list \<Rightarrow> nat list list" where
  "lev_cell str1 str2 j i matrix =
     (let indicator = (if str1 ! (i - 1) = str2 ! (j - 1) then 0 else 1)
      in set_cell matrix j i
           (min (min (matrix ! j ! (i - 1) + 1) (matrix ! (j - 1) ! i + 1))
                (matrix ! (j - 1) ! (i - 1) + indicator)))"

definition levenshteinDistance :: "jsstring \<Rightarrow> jsstring \<Rightarrow> nat" where
  "levenshteinDistance str1 str2 =
     (let matrix0 = replicate (length str2 + 1) (replicate (length str1 + 1) 0);
          matrix1 = fold (\<lambda>i m. set_cell m 0 i i) [0..<length str1 + 1] matrix0;
          matrix2 = fold (\<lambda>j m. set_cell m j 0 j) [0..<length str2 + 1] matrix1;
          matrix3 = fold (\<lambda>j m. fold (lev_cell str1 str2 j) [1..<length str1 + 1] m)
                      [1..<length str2 + 1] matrix2
      in matrix3 ! length str2 ! length str1)"

definition similarity :: "jsstring \<Rightarrow> jsstring \<Rightarrow> rat" where
  "similarity str1 str2 =
     (let longer = (if length str1 > length str2 then str1 else str2);
          shorter = (if length str1 > length str2 then str2 else str1)
      in if length longer = 0 then 1
         else (of_nat (length longer) - of_nat (levenshteinDistance longer shorter))
              / of_nat (length longer))"

definition normalize :: "runtime \<Rightarrow> jsstring \<Rightarrow> jsstring" where
  "normalize R str =
     (let lower = toLowerCase R str;
          normalized = (case normalizeNFC R of Some nfc \<Rightarrow> nfc lower | None \<Rightarrow> lower)
      in case unicodeLN R of
           Some isLN \<Rightarrow> trim (collapseWhitespace (stripUnicode isLN normalized))
         | None \<Rightarrow> trim (collapseWhitespace (stripAscii normalized)))"

definition fuzzyMatch :: "runtime \<Rightarrow> jsstring \<Rightarrow> jsstring \<Rightarrow> rat \<Rightarrow> bool" where
  "fuzzyMatch R query text threshold =
     (let normalizedQuery = normalize R query;
          normalizedText = normalize R text
      in if includes_str normalizedText normalizedQuery then True
         else (let queryWords = split_space normalizedQuery;
                   textWords = split_space normalizedText
               in list_all (\<lambda>queryWord.
                    list_ex (\<lambda>textWord. similarity queryWord textWord \<ge> threshold) textWords)
                    queryWords))"

text \<open>The body of the \<open>forEach\<close> of \<open>getMatchScore\<close>, on the pair (totalScore, matchCount).\<close>

definition score_word :: "jsstring list \<Rightarrow> jsstring \<Rightarrow> rat \<times> nat \<Rightarrow> rat \<times> nat" where
  "score_word textWords queryWord acc =
     (case Math_max (map (\<lambda>textWord. similarity queryWord textWord) textWords) of
        None \<Rightarrow> acc
      | Some bestMatch \<Rightarrow>
          if bestMatch > 0.6 then (fst acc + bestMatch, snd acc + 1) else acc)"

definition getMatchScore :: "runtime \<Rightarrow> jsstring \<Rightarrow> jsstring \<Rightarrow> rat" where
  "getMatchScore R query text =
     (let normalizedQuery = normalize R query;
          normalizedText = normalize R text
      in if includes_str normalizedText normalizedQuery then 1
         else (let queryWords = split_space normalizedQuery;
                   textWords = split_space normalizedText;
                   (totalScore, matchCount) = fold (score_word textWords) queryWords (0, 0)
               in if matchCount > 0 then totalScore / of_nat (length queryWords) else 0))"

section \<open>Transliteration\<close>

definition banglaToEnglish :: "(jsstring \<times> jsstring) list" where
  "banglaToEnglish =
     [([0x9AC, 0x9BE, 0x982, 0x9B2, 0x9BE], js ''bangla''),
      ([0x9AC, 0x987], js ''boi''),
      ([0x9B2, 0x9C7, 0x996, 0x995], js ''lekhok''),
      ([0x9AA, 0x9CD, 0x9B0, 0x995, 0x9BE, 0x9B6, 0x995], js ''prokashok''),
      ([0x9AA, 0x9CD, 0x9B0, 0x995, 0x9BE, 0x9B6, 0x9A8, 0x9C0], js ''prokashoni''),
      ([0x989, 0x9AA, 0x9A8, 0x9CD, 0x9AF, 0x9BE, 0x9B8], js ''uponnash''),
      ([0x995, 0x9AC, 0x9BF, 0x9A4, 0x9BE], js ''kobita''),
      ([0x997, 0x9B2, 0x9CD, 0x9AA], js ''golpo''),
      ([0x987, 0x9A4, 0x9BF, 0x9B9, 0x9BE, 0x9B8], js ''itihas''),
      ([0x9AC, 0x9BF, 0x99C, 0x9CD, 0x99E, 0x9BE, 0x9A8], js ''biggan''),
      ([0x997, 0x9A3, 0x9BF, 0x9A4], js ''gonit''),
      ([0x9AD, 0x9C2, 0x997, 0x9CB, 0x9B2], js ''bhugol'')]"

text \<open>
  \<open>Object.fromEntries\<close> of the swapped entries. The English spellings are pairwise
  distinct, so no entry overwrites another and the order is that of the forward table.
\<close>

definition englishToBangla :: "(jsstring \<times> jsstring) list" where
  "englishToBangla = map (\<lambda>(k, v). (v, k)) banglaToEnglish"

text \<open>
  \<open>result.replace(new RegExp(pat, 'g'), rep)\<close> for a pattern without regular-expression
  metacharacters and a replacement without \<open>$\<close>, as all keys and values of the tables
  are: every non-overlapping occurrence of \<open>pat\<close>, scanning from the left, is replaced
  by \<open>rep\<close>.
\<close>

function replaceAll :: "jsstring \<Rightarrow> jsstring \<Rightarrow> jsstring \<Rightarrow> jsstring" where
  "replaceAll pat rep [] = (if pat = [] then rep else [])"
| "replaceAll pat rep (c # s) =
     (if pat = [] then rep @ c # replaceAll pat rep s
      else if startsWith (c # s) pat
      then rep @ replaceAll pat rep (drop (length pat) (c # s))
      else c # replaceAll pat rep s)"
  by pat_completeness auto
termination
  by (relation "measure (\<lambda>(pat, rep, s). length s)") (auto simp: Suc_le_eq)

definition banglaToEng :: "runtime \<Rightarrow> jsstring \<Rightarrow> jsstring" where
  "banglaToEng R text =
     fold (\<lambda>(bangla, english) result. replaceAll bangla english result)
       banglaToEnglish (toLowerCase R text)"

definition engToBangla :: "runtime \<Rightarrow> jsstring \<Rightarrow> jsstring" where
  "engToBangla R text =
     fold (\<lambda>(english, bangla) result. replaceAll english bangla result)
       englishToBangla (toLowerCase R text)"

definition getAllVariations :: "runtime \<Rightarrow> jsstring \<Rightarrow> jsstring list" where
  "getAllVariations R query =
     set_insertion_order [query, banglaToEng R query, engToBangla R query]"

section \<open>SuggestionEngine\<close>

text \<open>The static array \<open>suggestions\<close> is the state, passed in and returned.\<close>

definition addQuery :: "runtime \<Rightarrow> jsstring \<Rightarrow> jsstring list \<Rightarrow> jsstring list" where
  "addQuery R query suggestions =
     (let normalized = normalize R query
      in if normalized \<noteq> [] \<and> normalized \<notin> set suggestions
         then (let pushed = suggestions @ [normalized]
               in if length pushed > 1000 then tl pushed else pushed)
         else suggestions)"

definition suggestion_cmp :: "runtime \<Rightarrow> jsstring \<Rightarrow> jsstring \<Rightarrow> jsstring \<Rightarrow> rat" where
  "suggestion_cmp R normalized a b =
     (let aStarts = startsWith a normalized;
          bStarts = startsWith b normalized
      in if aStarts \<and> \<not> bStarts then - 1
         else if \<not> aStarts \<and> bStarts then 1
         else getMatchScore R normalized b - getMatchScore R normalized a)"

definition getSuggestions :: "runtime \<Rightarrow> jsstring list \<Rightarrow> jsstring \<Rightarrow> int \<Rightarrow> jsstring list" where
  "getSuggestions R suggestions partialQuery limit =
     (let normalized = normalize R partialQuery
      in if normalized = [] then []
         else slice0 limit
                (sort_by (suggestion_cmp R normalized)
                   (filter (\<lambda>suggestion.
                      includes_str suggestion normalized \<or> similarity normalized suggestion > 0.7)
                      suggestions)))"

section \<open>SearchRanking\<close>

text \<open>
  The columns of a row of \<open>books\<close> that the search reads. \<open>None\<close> is SQL NULL
  (\<open>undefined\<close> in the interface of \<open>calculateScore\<close>).
\<close>

record book =
  book_id :: jsstring
  name :: jsstring
  author :: "jsstring option"
  publisher :: "jsstring option"
  book_notes :: "jsstring option"

text \<open>\<open>if (book.author) { totalScore += ... * weight }\<close>: the empty string is falsy as well.\<close>

definition add_field :: "runtime \<Rightarrow> jsstring \<Rightarrow> jsstring option \<Rightarrow> rat \<Rightarrow> rat \<Rightarrow> rat" where
  "add_field R normalizedQuery field weight totalScore =
     (case field of
        None \<Rightarrow> totalScore
      | Some text \<Rightarrow>
          if text \<noteq> [] then totalScore + getMatchScore R normalizedQuery text * weight
          else totalScore)"

text \<open>
  \<open>calculateScore\<close> calls itself. The first argument bounds the depth of the call
  stack: \<open>None\<close> says that the depth did not suffice. A call that returns \<open>None\<close> for
  every depth never returns in the source.
\<close>

fun calculateScore :: "nat \<Rightarrow> runtime \<Rightarrow> jsstring \<Rightarrow> book \<Rightarrow> rat option" where
  "calculateScore 0 R query b = None"
| "calculateScore (Suc depth) R query b =
     (let normalizedQuery = normalize R query;
          nameScore = getMatchScore R normalizedQuery (name b);
          total0 = 0 + nameScore * 5;
          total1 = add_field R normalizedQuery (author b) 3 total0;
          total2 = add_field R normalizedQuery (publisher b) 2 total1;
          total3 = add_field R normalizedQuery (book_notes b) 1 total2;
          variations = getAllVariations R query
      in case fold (\<lambda>variation acc.
                 case acc of
                   None \<Rightarrow> None
                 | Some totalScore \<Rightarrow>
                     if variation \<noteq> query
                     then (case calculateScore depth R variation b of
                             None \<Rightarrow> None
                           | Some translitScore \<Rightarrow> Some (totalScore + translitScore * 0.8))
                     else Some totalScore)
               variations (Some total3) of
           None \<Rightarrow> None
         | Some totalScore \<Rightarrow> Some (min totalScore 10))"

definition rankResults :: "nat \<Rightarrow> runtime \<Rightarrow> jsstring \<Rightarrow> book list \<Rightarrow> rat \<Rightarrow> book list option" where
  "rankResults depth R query items threshold =
     (case those (map (\<lambda>item. calculateScore depth R query item) items) of
        None \<Rightarrow> None
      | Some scores \<Rightarrow>
          Some (map fst
                  (sort_by (\<lambda>a b. snd b - snd a)
                     (filter (\<lambda>(item, score). score \<ge> threshold) (zip items scores)))))"

section \<open>DatabaseManager.searchBooks\<close>

text \<open>
  The SQLite store is outside the core. \<open>likeQuery\<close> is the result of the \<open>LIKE\<close>
  statement, whose parameters are all built from \<open>query.toLowerCase()\<close>; \<open>allBooks\<close> is
  the result of \<open>getAllBooks()\<close>.
\<close>

record database =
  likeQuery :: "jsstring \<Rightarrow> book list"
  allBooks :: "book list"

text \<open>The \<open>forEach\<close> that pushes the results of one variation not yet present by id.\<close>

definition add_unique :: "book list \<Rightarrow> book list \<Rightarrow> book list" where
  "add_unique variantResults rankedResults =
     fold (\<lambda>b ranked.
            if find (\<lambda>existing. book_id existing = book_id b) ranked = None
            then ranked @ [b] else ranked)
       variantResults rankedResults"

definition searchBooks ::
  "nat \<Rightarrow> runtime \<Rightarrow> database \<Rightarrow> jsstring \<Rightarrow> jsstring list \<Rightarrow> (book list \<times> jsstring list) option"
where
  "searchBooks depth R db query suggestions =
     (let ftsResults = likeQuery db (toLowerCase R query)
      in if length ftsResults \<ge> 3 then Some (ftsResults, addQuery R query suggestions)
         else
           (case rankResults depth R query (allBooks db) 0.3 of
              None \<Rightarrow> None
            | Some rankedResults \<Rightarrow>
                (case fold (\<lambda>variation acc.
                        case acc of
                          None \<Rightarrow> None
                        | Some ranked \<Rightarrow>
                            if variation \<noteq> query
                            then (case rankResults depth R variation (allBooks db) 0.3 of
                                    None \<Rightarrow> None
                                  | Some variantResults \<Rightarrow>
                                      Some (add_unique variantResults ranked))
                            else Some ranked)
                      (getAllVariations R query) (Some rankedResults) of
                   None \<Rightarrow> None
                 | Some merged \<Rightarrow> Some (take 50 merged, addQuery R query suggestions))))"

section \<open>A runtime for Basic Latin, Bengali and Hangul\<close>

text \<open>
  A concrete runtime, to run the model on concrete inputs. On text made of Basic Latin,
  of the Bengali words of the transliteration table and of conjoining Hangul jamo it
  computes what ECMAScript computes: only A to Z have a lower-case form there, the only
  canonical compositions are those of Hangul syllables, and the letters and numbers are
  those listed.
\<close>

definition basic_toLowerCase :: "jsstring \<Rightarrow> jsstring" where
  "basic_toLowerCase s = map (\<lambda>c. if 65 \<le> c \<and> c \<le> 90 then c + 32 else c) s"

text \<open>
  Hangul composition: a leading consonant and a vowel form an LV syllable, an LV
  syllable and a trailing consonant form an LVT syllable.
\<close>

fun basic_nfc :: "jsstring \<Rightarrow> jsstring" where
  "basic_nfc [] = []"
| "basic_nfc [c] = [c]"
| "basic_nfc (a # b # s) =
     (if 0x1100 \<le> a \<and> a \<le> 0x1112 \<and> 0x1161 \<le> b \<and> b \<le> 0x1175
      then basic_nfc ((0xAC00 + ((a - 0x1100) * 21 + (b - 0x1161)) * 28) # s)
      else if 0xAC00 \<le> a \<and> a \<le> 0xD7A3 \<and> (a - 0xAC00) mod 28 = 0
              \<and> 0x11A8 \<le> b \<and> b \<le> 0x11C2
      then (a + (b - 0x11A7)) # basic_nfc s
      else a # basic_nfc (b # s))"

definition basic_LN :: "nat \<Rightarrow> bool" where
  "basic_LN c \<longleftrightarrow>
     (48 \<le> c \<and> c \<le> 57) \<or> (65 \<le> c \<and> c \<le> 90) \<or> (97 \<le> c \<and> c \<le> 122) \<or>
     c = 0x980 \<or> (0x985 \<le> c \<and> c \<le> 0x98C) \<or> (0x98F \<le> c \<and> c \<le> 0x990) \<or>
     (0x993 \<le> c \<and> c \<le> 0x9A8) \<or> (0x9AA \<le> c \<and> c \<le> 0x9B0) \<or> c = 0x9B2 \<or>
     (0x9B6 \<le> c \<and> c \<le> 0x9B9) \<or> c = 0x9BD \<or> c = 0x9CE \<or>
     (0x9DC \<le> c \<and> c \<le> 0x9DD) \<or> (0x9DF \<le> c \<and> c \<le> 0x9E1) \<or>
     (0x9E6 \<le> c \<and> c \<le> 0x9F1) \<or> (0x9F4 \<le> c \<and> c \<le> 0x9F9) \<or> c = 0x9FC \<or>
     (0x1100 \<le> c \<and> c \<le> 0x11FF) \<or> (0xAC00 \<le> c \<and> c \<le> 0xD7A3)"

definition basic_runtime :: runtime where
  "basic_runtime =
     \<lparr>toLowerCase = basic_toLowerCase, normalizeNFC = Some basic_nfc,
      unicodeLN = Some basic_LN\<rparr>"

section \<open>Notions used in the proofs\<close>

text \<open>
  The edit distance by recursion on the two strings, the distance of two prefixes (read
  backwards), and the invariant of the matrix of \<open>levenshteinDistance\<close>: the shape
  of the matrix, and the cells that already hold the distance of their prefixes.
\<close>

fun edr :: "jsstring \<Rightarrow> jsstring \<Rightarrow> nat" where
  "edr [] ys = length ys"
| "edr xs [] = length xs"
| "edr (x # xs) (y # ys) =
     min (min (edr xs (y # ys) + 1) (edr (x # xs) ys + 1))
         (edr xs ys + (if x = y then 0 else 1))"

definition pdist :: "jsstring \<Rightarrow> jsstring \<Rightarrow> nat \<Rightarrow> nat \<Rightarrow> nat" where
  "pdist str1 str2 j i = edr (rev (take i str1)) (rev (take j str2))"

definition dims :: "nat \<Rightarrow> nat \<Rightarrow> nat list list \<Rightarrow> bool" where
  "dims M N m \<longleftrightarrow> length m = M + 1 \<and> (\<forall>r \<le> M. length (m ! r) = N + 1)"

definition upto_ok :: "jsstring \<Rightarrow> jsstring \<Rightarrow> nat list list \<Rightarrow> nat \<Rightarrow> nat \<Rightarrow> bool" where
  "upto_ok str1 str2 m J K \<longleftrightarrow>
     dims (length str2) (length str1) m \<and>
     (\<forall>j i. j \<le> length str2 \<longrightarrow> i \<le> length str1 \<longrightarrow>
        (j < J \<or> (j = J \<and> i < K) \<or> i = 0) \<longrightarrow> m ! j ! i = pdist str1 str2 j i)"

text \<open>Queries \<open>a\<close>, \<open>aa\<close>, \<open>aaa\<close>, ...: pairwise distinct, and unchanged by \<open>normalize\<close>.\<close>

definition sample_queries :: "nat \<Rightarrow> jsstring list" where
  "sample_queries k = map (\<lambda>n. replicate (Suc n) 97) [0..<k]"

text \<open>
  The field score as the specification words it: the average of the best similarity
  of the query words that reach 0.6, over those words only.
\<close>

definition spec_fieldMatchScore :: "runtime \<Rightarrow> jsstring \<Rightarrow> jsstring \<Rightarrow> rat" where
  "spec_fieldMatchScore R query text =
     (let normalizedQuery = normalize R query;
          normalizedText = normalize R text
      in if includes_str normalizedText normalizedQuery then 1
         else (let queryWords = split_space normalizedQuery;
                   textWords = split_space normalizedText;
                   best = (\<lambda>w. Max (set (map (similarity w) textWords)));
                   cleared = filter (\<lambda>w. best w \<ge> 0.6) queryWords
               in if cleared = [] then 0
                  else sum_list (map best cleared) / of_nat (length cleared)))"

text \<open>
  The shape of a normalized string: \<open>clean\<close> says that every code point would survive
  the Unicode-aware stripping, \<open>single_spaced\<close> that every white-space code unit is a
  space that is not followed by more white space.
\<close>

fun clean :: "(nat \<Rightarrow> bool) \<Rightarrow> jsstring \<Rightarrow> bool" where
  "clean isLN [] = True"
| "clean isLN [c] = keepUnit isLN c"
| "clean isLN (c # d # s) =
     (if isHighSurrogate c \<and> isLowSurrogate d then isLN (codePoint c d) \<and> clean isLN s
      else keepUnit isLN c \<and> clean isLN (d # s))"

fun single_spaced :: "jsstring \<Rightarrow> bool" where
  "single_spaced [] = True"
| "single_spaced [c] = (isWhiteSpace c \<longrightarrow> c = 32)"
| "single_spaced (c # d # s) =
     ((isWhiteSpace c \<longrightarrow> c = 32 \<and> \<not> isWhiteSpace d) \<and> single_spaced (d # s))"

text \<open>
  Merging by record identity as the specification words it: of the records with one id
  the first occurrence stays, later ones are dropped.
\<close>

function first_by_id :: "book list \<Rightarrow> book list" where
  "first_by_id [] = []"
| "first_by_id (b # bs) = b # first_by_id (filter (\<lambda>x. book_id x \<noteq> book_id b) bs)"
  by pat_completeness auto
termination
  by (relation "measure length") (auto simp: le_imp_less_Suc)

text \<open>The ranked lists of the escalation path: one for the query, one per other variation.\<close>

definition ranked_lists :: "nat \<Rightarrow> runtime \<Rightarrow> database \<Rightarrow> jsstring \<Rightarrow> book list list option" where
  "ranked_lists depth R db query =
     those (map (\<lambda>v. rankResults depth R v (allBooks db) 0.3)
              (query # filter (\<lambda>v. v \<noteq> query) (getAllVariations R query)))"

text \<open>A small catalog to run the search on.\<close>

definition hobbit_book :: book where
  "hobbit_book = \<lparr>book_id = js ''b1'', name = js ''hobbit'', author = None,
     publisher = None, book_notes = None\<rparr>"

definition dune_book :: book where
  "dune_book = \<lparr>book_id = js ''b2'', name = js ''dune'', author = Some (js ''herbert''),
     publisher = None, book_notes = None\<rparr>"

definition emma_book :: book where
  "emma_book = \<lparr>book_id = js ''b3'', name = js ''emma'', author = Some (js ''austen''),
     publisher = None, book_notes = None\<rparr>"

definition eragon_book :: book where
  "eragon_book = \<lparr>book_id = js ''b4'', name = js ''eragon'', author = None,
     publisher = None, book_notes = None\<rparr>"

definition sample_db :: "book list \<Rightarrow> book list \<Rightarrow> database" where
  "sample_db indexed catalog = \<lparr>likeQuery = (\<lambda>q. indexed), allBooks = catalog\<rparr>"

section \<open>The edit distance\<close>

lemma edr_Nil2: "edr xs [] = length xs"
  by (cases xs) simp_all

lemma edr_sym: "edr xs ys = edr ys xs"
proof (induction xs ys rule: edr.induct)
  case (3 x xs y ys)
  then show ?case by (simp add: min.commute eq_commute)
qed (simp_all add: edr_Nil2)

lemma pdist_row0: "i \<le> length str1 \<Longrightarrow> pdist str1 str2 0 i = i"
  by (simp add: pdist_def edr_Nil2)

lemma pdist_col0: "j \<le> length str2 \<Longrightarrow> pdist str1 str2 j 0 = j"
  by (simp add: pdist_def)

lemma pdist_step:
  assumes "0 < i" "i \<le> length str1" "0 < j" "j \<le> length str2"
  shows "pdist str1 str2 j i =
           min (min (pdist str1 str2 j (i - 1) + 1) (pdist str1 str2 (j - 1) i + 1))
               (pdist str1 str2 (j - 1) (i - 1)
                  + (if str1 ! (i - 1) = str2 ! (j - 1) then 0 else 1))"
proof -
  obtain i' j' where ij: "i = Suc i'" "j = Suc j'"
    using assms by (metis Suc_pred)
  have a: "rev (take i str1) = str1 ! i' # rev (take i' str1)"
    using assms ij by (simp add: take_Suc_conv_app_nth)
  have b: "rev (take j str2) = str2 ! j' # rev (take j' str2)"
    using assms ij by (simp add: take_Suc_conv_app_nth)
  show ?thesis
    unfolding pdist_def a b using ij a b by simp
qed

lemma set_cell_dims: "dims M N m \<Longrightarrow> dims M N (set_cell m j i v)"
  unfolding dims_def set_cell_def
  by (cases "j \<le> M") (auto simp: nth_list_update)

lemma set_cell_nth:
  "dims M N m \<Longrightarrow> j \<le> M \<Longrightarrow> i \<le> N \<Longrightarrow> j' \<le> M \<Longrightarrow>
   set_cell m j i v ! j' ! i' = (if j' = j \<and> i' = i then v else m ! j' ! i')"
  unfolding dims_def set_cell_def
  by (auto simp: nth_list_update)

lemma fold_row0:
  "dims M N m \<Longrightarrow> k \<le> N + 1 \<Longrightarrow>
   dims M N (fold (\<lambda>i m. set_cell m 0 i i) [0..<k] m) \<and>
   (\<forall>i<k. fold (\<lambda>i m. set_cell m 0 i i) [0..<k] m ! 0 ! i = i)"
proof (induction k)
  case 0
  then show ?case by simp
next
  case (Suc k)
  let ?m = "fold (\<lambda>i m. set_cell m 0 i i) [0..<k] m"
  from Suc have d: "dims M N ?m" and r: "\<forall>i<k. ?m ! 0 ! i = i" and k: "k \<le> N"
    by simp_all
  show ?case
    using d r k by (simp add: set_cell_dims set_cell_nth [OF d])
qed

lemma fold_col0:
  "dims M N m \<Longrightarrow> k \<le> M + 1 \<Longrightarrow> (\<forall>i\<le>N. m ! 0 ! i = i) \<Longrightarrow>
   dims M N (fold (\<lambda>j m. set_cell m j 0 j) [0..<k] m) \<and>
   (\<forall>i\<le>N. fold (\<lambda>j m. set_cell m j 0 j) [0..<k] m ! 0 ! i = i) \<and>
   (\<forall>j<k. fold (\<lambda>j m. set_cell m j 0 j) [0..<k] m ! j ! 0 = j)"
proof (induction k)
  case 0
  then show ?case by simp
next
  case (Suc k)
  let ?m = "fold (\<lambda>j m. set_cell m j 0 j) [0..<k] m"
  from Suc have d: "dims M N ?m" and r: "\<forall>i\<le>N. ?m ! 0 ! i = i"
    and c: "\<forall>j<k. ?m ! j ! 0 = j" and k: "k \<le> M"
    by simp_all
  show ?case
    using d r c k by (auto simp add: set_cell_dims set_cell_nth [OF d])
qed

lemma init_ok:
  "upto_ok str1 str2
     (fold (\<lambda>j m. set_cell m j 0 j) [0..<length str2 + 1]
        (fold (\<lambda>i m. set_cell m 0 i i) [0..<length str1 + 1]
           (replicate (length str2 + 1) (replicate (length str1 + 1) 0)))) 1 1"
proof -
  let ?M = "length str2" and ?N = "length str1"
  let ?m0 = "replicate (?M + 1) (replicate (?N + 1) (0::nat))"
  let ?m1 = "fold (\<lambda>i m. set_cell m 0 i i) [0..<?N + 1] ?m0"
  let ?m2 = "fold (\<lambda>j m. set_cell m j 0 j) [0..<?M + 1] ?m1"
  have d0: "dims ?M ?N ?m0"
    unfolding dims_def by (simp del: replicate_Suc replicate.simps add: nth_replicate)
  from fold_row0 [OF d0, of "?N + 1"]
  have d1: "dims ?M ?N ?m1" and r1: "\<forall>i\<le>?N. ?m1 ! 0 ! i = i" by simp_all
  from fold_col0 [OF d1 _ r1, of "?M + 1"]
  have d2: "dims ?M ?N ?m2" and r2: "\<forall>i\<le>?N. ?m2 ! 0 ! i = i"
    and c2: "\<forall>j\<le>?M. ?m2 ! j ! 0 = j" by simp_all
  show ?thesis
    unfolding upto_ok_def using d2 r2 c2
    by (auto simp: pdist_row0 pdist_col0)
qed

lemma lev_cell_ok:
  assumes ok: "upto_ok str1 str2 m J K"
    and J: "0 < J" "J \<le> length str2" and K: "0 < K" "K \<le> length str1"
  shows "upto_ok str1 str2 (lev_cell str1 str2 J K m) J (Suc K)"
proof -
  from ok have d: "dims (length str2) (length str1) m" by (simp add: upto_ok_def)
  from ok have g: "\<And>j i. j \<le> length str2 \<Longrightarrow> i \<le> length str1 \<Longrightarrow>
      j < J \<or> (j = J \<and> i < K) \<or> i = 0 \<Longrightarrow> m ! j ! i = pdist str1 str2 j i"
    unfolding upto_ok_def by blast
  have a: "m ! J ! (K - 1) = pdist str1 str2 J (K - 1)" using J K by (intro g) auto
  have b: "m ! (J - 1) ! K = pdist str1 str2 (J - 1) K" using J K by (intro g) auto
  have c: "m ! (J - 1) ! (K - 1) = pdist str1 str2 (J - 1) (K - 1)"
    using J K by (intro g) auto
  have v: "lev_cell str1 str2 J K m = set_cell m J K (pdist str1 str2 J K)"
    unfolding lev_cell_def Let_def a b c pdist_step [OF K J] ..
  show ?thesis
    unfolding upto_ok_def v
  proof (intro conjI allI impI)
    show "dims (length str2) (length str1) (set_cell m J K (pdist str1 str2 J K))"
      by (rule set_cell_dims [OF d])
  next
    fix j i
    assume j: "j \<le> length str2" and i: "i \<le> length str1"
      and h: "j < J \<or> j = J \<and> i < Suc K \<or> i = 0"
    show "set_cell m J K (pdist str1 str2 J K) ! j ! i = pdist str1 str2 j i"
    proof (cases "j = J \<and> i = K")
      case True
      then show ?thesis using set_cell_nth [OF d J(2) K(2) j] by simp
    next
      case False
      then have "j < J \<or> (j = J \<and> i < K) \<or> i = 0" using h by auto
      then have "m ! j ! i = pdist str1 str2 j i" by (rule g [OF j i])
      then show ?thesis using False set_cell_nth [OF d J(2) K(2) j] by simp
    qed
  qed
qed

lemma inner_ok:
  assumes J: "0 < J" "J \<le> length str2"
  shows "upto_ok str1 str2 m J 1 \<Longrightarrow> k \<le> length str1 \<Longrightarrow>
         upto_ok str1 str2 (fold (lev_cell str1 str2 J) [1..<k + 1] m) J (k + 1)"
proof (induction k)
  case 0
  then show ?case by simp
next
  case (Suc k)
  then have "upto_ok str1 str2 (fold (lev_cell str1 str2 J) [1..<k + 1] m) J (Suc k)"
    by simp
  from lev_cell_ok [OF this J] Suc.prems(2)
  show ?case by simp
qed

lemma next_row_ok:
  "upto_ok str1 str2 m J (length str1 + 1) \<Longrightarrow> upto_ok str1 str2 m (Suc J) 1"
proof -
  assume ok: "upto_ok str1 str2 m J (length str1 + 1)"
  then have d: "dims (length str2) (length str1) m"
    unfolding upto_ok_def by blast
  have "m ! j ! i = pdist str1 str2 j i"
    if "j \<le> length str2" "i \<le> length str1" "j < Suc J \<or> (j = Suc J \<and> i < 1) \<or> i = 0"
    for j i
  proof -
    from that have "j < J \<or> (j = J \<and> i < length str1 + 1) \<or> i = 0" by auto
    with ok that(1,2) show ?thesis unfolding upto_ok_def by blast
  qed
  with d show ?thesis unfolding upto_ok_def by blast
qed

lemma outer_ok:
  "upto_ok str1 str2 m 1 1 \<Longrightarrow> k \<le> length str2 \<Longrightarrow>
   upto_ok str1 str2
     (fold (\<lambda>j m. fold (lev_cell str1 str2 j) [1..<length str1 + 1] m) [1..<k + 1] m)
     (k + 1) 1"
proof (induction k)
  case 0
  then show ?case by simp
next
  case (Suc k)
  let ?m = "fold (\<lambda>j m. fold (lev_cell str1 str2 j) [1..<length str1 + 1] m) [1..<k + 1] m"
  from Suc have "upto_ok str1 str2 ?m (Suc k) 1" by simp
  from inner_ok [OF _ _ this, of "length str1"] Suc.prems(2)
  have "upto_ok str1 str2 (fold (lev_cell str1 str2 (Suc k)) [1..<length str1 + 1] ?m)
          (Suc k) (length str1 + 1)"
    by simp
  from next_row_ok [OF this] show ?case by simp
qed

lemma levenshteinDistance_edr: "levenshteinDistance str1 str2 = edr (rev str1) (rev str2)"
proof -
  let ?m3 = "fold (\<lambda>j m. fold (lev_cell str1 str2 j) [1..<length str1 + 1] m)
               [1..<length str2 + 1]
               (fold (\<lambda>j m. set_cell m j 0 j) [0..<length str2 + 1]
                  (fold (\<lambda>i m. set_cell m 0 i i) [0..<length str1 + 1]
                     (replicate (length str2 + 1) (replicate (length str1 + 1) 0))))"
  have "upto_ok str1 str2 ?m3 (length str2 + 1) 1"
    by (rule outer_ok [OF init_ok order_refl])
  then have "\<forall>j i. j \<le> length str2 \<longrightarrow> i \<le> length str1 \<longrightarrow>
        (j < length str2 + 1 \<or> (j = length str2 + 1 \<and> i < 1) \<or> i = 0) \<longrightarrow>
        ?m3 ! j ! i = pdist str1 str2 j i"
    unfolding upto_ok_def by (rule conjunct2)
  then have "?m3 ! length str2 ! length str1 = pdist str1 str2 (length str2) (length str1)"
    by simp
  then show ?thesis
    unfolding levenshteinDistance_def Let_def pdist_def by simp
qed

lemma levenshteinDistance_sym: "levenshteinDistance a b = levenshteinDistance b a"
  by (simp add: levenshteinDistance_edr edr_sym)

text \<open>
  Claim C8. \<open>similarity\<close> is symmetric: for all strings \<open>a\<close> and \<open>b\<close>,
  \<open>similarity a b = similarity b a\<close>. The function picks the longer argument first
  and, for equal lengths, swaps the arguments of \<open>levenshteinDistance\<close>; the
  distance itself is symmetric.
\<close>

theorem similarity_symmetric: "similarity a b = similarity b a"
proof (cases "length a = length b")
  case True
  then show ?thesis
    using levenshteinDistance_sym [of a b] by (auto simp: similarity_def)
next
  case False
  then show ?thesis
    by (auto simp: similarity_def)
qed

theorem similarity_symmetric_witness:
  "similarity (js ''kitten'') (js ''sitting'') = similarity (js ''sitting'') (js ''kitten'')
   \<and> similarity (js ''sitting'') (js ''kitten'') = 4 / 7"
proof -
  have "similarity (js ''sitting'') (js ''kitten'') = 4 / 7"
    by code_simp
  with similarity_symmetric [of "js ''kitten''" "js ''sitting''"] show ?thesis
    by simp
qed

section \<open>Evaluation on the basic runtime\<close>

lemmas unit_defs = isWhiteSpace_def isHighSurrogate_def isLowSurrogate_def keepUnit_def
  codePoint_def asciiPunct_def basic_LN_def

lemmas basic_defs = basic_runtime_def basic_toLowerCase_def normalize_def trim_def
  trimStart_def stripAscii_def js_def

lemma basic_nfc_below_jamo: "\<forall>c\<in>set s. c < 0x1100 \<Longrightarrow> basic_nfc s = s"
  by (induction s rule: basic_nfc.induct) auto

lemma stripUnicode_kept: "\<forall>c\<in>set s. keepUnit isLN c \<Longrightarrow> stripUnicode isLN s = s"
  by (induction isLN s rule: stripUnicode.induct) (auto simp: keepUnit_def)

lemma collapseWhitespace_no_space:
  "\<forall>c\<in>set s. \<not> isWhiteSpace c \<Longrightarrow> collapseWhitespace s = s"
  by (induction s) auto

lemma trimEnd_no_space: "\<forall>c\<in>set s. \<not> isWhiteSpace c \<Longrightarrow> trimEnd s = s"
  by (induction s) auto

lemma trim_no_space: "\<forall>c\<in>set s. \<not> isWhiteSpace c \<Longrightarrow> trim s = s"
  by (cases s) (simp_all add: trim_def trimStart_def trimEnd_no_space)

lemma normalize_basic_lower_latin:
  assumes "\<forall>c\<in>set s. 97 \<le> c \<and> c \<le> 122"
  shows "normalize basic_runtime s = s"
proof -
  have l: "basic_toLowerCase s = s"
    unfolding basic_toLowerCase_def using assms by (intro map_idI) auto
  have n: "basic_nfc s = s"
    using assms by (intro basic_nfc_below_jamo) auto
  have k: "\<forall>c\<in>set s. keepUnit basic_LN c"
    using assms by (auto simp: unit_defs)
  have w: "\<forall>c\<in>set s. \<not> isWhiteSpace c"
    using assms by (auto simp: isWhiteSpace_def)
  show ?thesis
    by (simp add: normalize_def basic_runtime_def l n stripUnicode_kept [OF k]
        collapseWhitespace_no_space [OF w] trim_no_space [OF w])
qed

lemma sample_queries_length: "length (sample_queries k) = k"
  by (simp add: sample_queries_def)

lemma sample_queries_normalize:
  "q \<in> set (sample_queries k) \<Longrightarrow> normalize basic_runtime q = q"
  unfolding sample_queries_def by (intro normalize_basic_lower_latin) auto

lemma sample_queries_map: "map (normalize basic_runtime) (sample_queries k) = sample_queries k"
  by (intro map_idI) (rule sample_queries_normalize)

lemma sample_queries_distinct: "distinct (map (normalize basic_runtime) (sample_queries k))"
proof -
  have "inj_on (\<lambda>n. replicate (Suc n) (97::nat)) (set [0..<k])"
    by (rule inj_onI) (metis length_replicate nat.inject)
  then show ?thesis
    unfolding sample_queries_map by (simp add: sample_queries_def distinct_map)
qed

lemma sample_queries_nonempty:
  "\<forall>q\<in>set (sample_queries k). normalize basic_runtime q \<noteq> []"
proof
  fix q assume q: "q \<in> set (sample_queries k)"
  then have "q \<noteq> []" by (auto simp: sample_queries_def)
  with sample_queries_normalize [OF q] show "normalize basic_runtime q \<noteq> []" by simp
qed

section \<open>The suggestion buffer\<close>

lemma addQuery_snoc:
  assumes "normalize R q \<noteq> []" "normalize R q \<notin> set s"
  shows "addQuery R q s = (if length s < 1000 then s @ [normalize R q] else tl s @ [normalize R q])"
  using assms by (cases s) (auto simp: addQuery_def Let_def)

lemma fold_addQuery:
  "distinct (map (normalize R) qs) \<Longrightarrow> \<forall>q\<in>set qs. normalize R q \<noteq> [] \<Longrightarrow>
   fold (addQuery R) qs [] = drop (length qs - 1000) (map (normalize R) qs)"
proof (induction qs rule: rev_induct)
  case Nil
  then show ?case by simp
next
  case (snoc q qs)
  let ?s = "drop (length qs - 1000) (map (normalize R) qs)"
  from snoc have s: "fold (addQuery R) qs [] = ?s" by simp
  from snoc.prems have ne: "normalize R q \<noteq> []" by simp
  from snoc.prems have "normalize R q \<notin> set (map (normalize R) qs)" by auto
  then have fresh: "normalize R q \<notin> set ?s"
    using set_drop_subset by fastforce
  have len: "length ?s = min (length qs) 1000" by auto
  show ?case
  proof (cases "length qs < 1000")
    case True
    then show ?thesis
      using s addQuery_snoc [OF ne fresh] len by simp
  next
    case False
    then have "Suc (length qs) - 1000 = Suc (length qs - 1000)" by simp
    then have "tl ?s = drop (Suc (length qs) - 1000) (map (normalize R) qs)"
      by (simp only: drop_Suc tl_drop)
    then show ?thesis
      using False s addQuery_snoc [OF ne fresh] len by simp
  qed
qed

text \<open>
  Claim C7. \<open>addQuery\<close> keeps the buffer bounded by first-in-first-out eviction:
  recording 1001 queries with pairwise distinct, non-empty normalizations into the empty
  buffer leaves exactly 1000 entries, the normalizations of all but the first query in
  the order of recording, and the first one is absent. Recording changes nothing when
  the normalization is empty or already in the buffer.
\<close>

theorem addQuery_fifo_bound:
  "(length qs = 1001 \<and> distinct (map (normalize R) qs) \<and> [] \<notin> set (map (normalize R) qs)
      \<longrightarrow> fold (addQuery R) qs [] = tl (map (normalize R) qs)
          \<and> length (fold (addQuery R) qs []) = 1000
          \<and> normalize R (hd qs) \<notin> set (fold (addQuery R) qs []))
   \<and> (normalize R q = [] \<longrightarrow> addQuery R q s = s)
   \<and> (normalize R q \<in> set s \<longrightarrow> addQuery R q s = s)"
proof (intro conjI impI)
  assume a: "length qs = 1001 \<and> distinct (map (normalize R) qs) \<and>
             [] \<notin> set (map (normalize R) qs)"
  then have "\<forall>q\<in>set qs. normalize R q \<noteq> []" by force
  with a have f: "fold (addQuery R) qs [] = drop 1 (map (normalize R) qs)"
    using fold_addQuery [of R qs] by simp
  then show t: "fold (addQuery R) qs [] = tl (map (normalize R) qs)"
    by (simp add: drop_Suc)
  show "length (fold (addQuery R) qs []) = 1000"
    using a f by simp
  from a obtain x xs where qs: "qs = x # xs" by (cases qs) auto
  with a show "normalize R (hd qs) \<notin> set (fold (addQuery R) qs [])"
    unfolding t by auto
qed (simp_all add: addQuery_def)

theorem addQuery_fifo_bound_witness:
  "length (sample_queries 1001) = 1001 \<and>
   distinct (map (normalize basic_runtime) (sample_queries 1001)) \<and>
   [] \<notin> set (map (normalize basic_runtime) (sample_queries 1001)) \<and>
   length (fold (addQuery basic_runtime) (sample_queries 1001) []) = 1000 \<and>
   normalize basic_runtime (hd (sample_queries 1001))
     \<notin> set (fold (addQuery basic_runtime) (sample_queries 1001) []) \<and>
   normalize basic_runtime (js '' '') = [] \<and>
   addQuery basic_runtime (js '' '') [js ''a''] = [js ''a''] \<and>
   normalize basic_runtime (js ''A'') \<in> set [js ''a''] \<and>
   addQuery basic_runtime (js ''A'') [js ''a''] = [js ''a'']"
proof -
  have e: "normalize basic_runtime (js '' '') = []"
    by (simp add: basic_defs unit_defs)
  have a: "normalize basic_runtime (js ''A'') \<in> set [js ''a'']"
    by (simp add: basic_defs unit_defs)
  have n: "[] \<notin> set (map (normalize basic_runtime) (sample_queries 1001))"
    using sample_queries_nonempty [of 1001] by force
  note h = sample_queries_length [of 1001] sample_queries_distinct [of 1001]
  from addQuery_fifo_bound [of "sample_queries 1001" basic_runtime "js '' ''" "[js ''a'']"]
    addQuery_fifo_bound [of "sample_queries 1001" basic_runtime "js ''A''" "[js ''a'']"]
    h n e a
  show ?thesis
    by blast
qed

text \<open>
  Claim C10. For a partial query whose normalization is the empty string,
  \<open>getSuggestions\<close> returns the empty list, whatever the buffer and the limit.
\<close>

theorem getSuggestions_empty_query:
  "normalize R partialQuery = [] \<Longrightarrow> getSuggestions R suggestions partialQuery limit = []"
  by (simp add: getSuggestions_def)

theorem getSuggestions_empty_query_witness:
  "normalize basic_runtime (js '' ?!'') = [] \<and>
   getSuggestions basic_runtime [js ''harry potter'', js ''hobbit''] (js '' ?!'') 5 = []"
proof -
  have n: "normalize basic_runtime (js '' ?!'') = []"
    by (simp add: basic_defs unit_defs)
  from getSuggestions_empty_query [OF n] n show ?thesis by simp
qed

section \<open>Queries that normalize to the empty string\<close>

lemma includes_str_Nil: "includes_str s []"
  by (cases s) (simp_all add: startsWith_def)

text \<open>
  The empty string is contained in every normalized text, so the first test of
  \<open>fuzzyMatch\<close> and of \<open>getMatchScore\<close> succeeds for an empty normalized query.
\<close>

lemma empty_normalized_query:
  "normalize R query = [] \<Longrightarrow>
   fuzzyMatch R query text threshold \<and> getMatchScore R query text = 1"
  by (simp add: fuzzyMatch_def getMatchScore_def includes_str_Nil)

section \<open>The field score\<close>

lemma split_space_not_Nil: "split_space s \<noteq> []"
  by (induction s) (auto split: list.splits)

lemma Math_max_Max: "xs \<noteq> [] \<Longrightarrow> Math_max xs = Some (Max (set xs))"
proof (induction xs)
  case Nil
  then show ?case by simp
next
  case (Cons x xs)
  then show ?case
    by (cases "xs = []") (auto simp: max.commute)
qed

lemma score_word_Max:
  "textWords \<noteq> [] \<Longrightarrow>
   score_word textWords w acc =
     (if Max (set (map (similarity w) textWords)) > 0.6
      then (fst acc + Max (set (map (similarity w) textWords)), snd acc + 1) else acc)"
  by (simp add: score_word_def Math_max_Max)

lemma fold_count_sum:
  "fold (\<lambda>w acc. if P w then (fst acc + f w, snd acc + 1) else acc) ws (t :: rat, n :: nat) =
     (t + sum_list (map f (filter P ws)), n + length (filter P ws))"
  by (induction ws arbitrary: t n) simp_all

lemma fold_score_word:
  assumes "textWords \<noteq> []"
  shows "fold (score_word textWords) queryWords (t, n) =
     (t + sum_list (map (\<lambda>w. Max (set (map (similarity w) textWords)))
            (filter (\<lambda>w. Max (set (map (similarity w) textWords)) > 0.6) queryWords)),
      n + length (filter (\<lambda>w. Max (set (map (similarity w) textWords)) > 0.6) queryWords))"
proof -
  have "score_word textWords =
      (\<lambda>w acc. if Max (set (map (similarity w) textWords)) > 0.6
         then (fst acc + Max (set (map (similarity w) textWords)), snd acc + 1) else acc)"
    by (intro ext) (rule score_word_Max [OF assms])
  then show ?thesis
    by (simp only: fold_count_sum)
qed

lemma sim_abc_abd: "similarity [97, 98, 99] [97, 98, 100] = 2 / 3"
  by code_simp

lemma sim_xyz_abd: "similarity [120, 121, 122] [97, 98, 100] = 0"
  by code_simp

lemma norm_abc_xyz: "normalize basic_runtime (js ''abc xyz'') = [97, 98, 99, 32, 120, 121, 122]"
  by (simp add: basic_defs unit_defs)

lemma norm_abd: "normalize basic_runtime (js ''abd'') = [97, 98, 100]"
  by (simp add: basic_defs unit_defs)

text \<open>
  Claim C2, as the code has it. When the normalized field does not contain the
  normalized query, \<open>getMatchScore\<close> is the sum of the best similarities of the query
  words whose best similarity is strictly greater than 0.6, divided by the number of
  all query words; it is 0 when no query word clears the bar.
\<close>

theorem getMatchScore_divides_by_all_words:
  assumes "\<not> includes_str (normalize R text) (normalize R query)"
  shows "getMatchScore R query text =
     (let queryWords = split_space (normalize R query);
          textWords = split_space (normalize R text);
          best = (\<lambda>w. Max (set (map (similarity w) textWords)));
          cleared = filter (\<lambda>w. best w > 0.6) queryWords
      in if cleared = [] then 0
         else sum_list (map best cleared) / of_nat (length queryWords))"
  using assms
  by (simp add: getMatchScore_def Let_def fold_score_word [OF split_space_not_Nil])

theorem getMatchScore_divides_by_all_words_witness:
  "\<not> includes_str (normalize basic_runtime (js ''abd'')) (normalize basic_runtime (js ''abc xyz'')) \<and>
   getMatchScore basic_runtime (js ''abc xyz'') (js ''abd'') = (2 / 3) / 2"
proof -
  have n: "\<not> includes_str (normalize basic_runtime (js ''abd'')) (normalize basic_runtime (js ''abc xyz''))"
    by (simp add: norm_abc_xyz norm_abd startsWith_def)
  from getMatchScore_divides_by_all_words [OF n] n show ?thesis
    by (simp add: norm_abc_xyz norm_abd sim_abc_abd sim_xyz_abd)
qed

text \<open>
  The claim as worded fails for the query \<open>abc xyz\<close> against the field \<open>abd\<close>: one of
  two words clears the bar with 2/3; the code returns 1/3, the average over the
  clearing words alone is 2/3.
\<close>

theorem getMatchScore_average_counterexample:
  "\<not> includes_str (normalize basic_runtime (js ''abd'')) (normalize basic_runtime (js ''abc xyz'')) \<and>
   getMatchScore basic_runtime (js ''abc xyz'') (js ''abd'') = 1 / 3 \<and>
   spec_fieldMatchScore basic_runtime (js ''abc xyz'') (js ''abd'') = 2 / 3 \<and>
   getMatchScore basic_runtime (js ''abc xyz'') (js ''abd'')
     \<noteq> spec_fieldMatchScore basic_runtime (js ''abc xyz'') (js ''abd'')"
  by (simp add: getMatchScore_def spec_fieldMatchScore_def norm_abc_xyz norm_abd
      startsWith_def score_word_def sim_abc_abd sim_xyz_abd)

section \<open>Query variations\<close>











section \<open>The recursion of calculateScore\<close>

lemma variations_boi:
  assumes "toLowerCase R (js ''boi'') = js ''boi''"
  shows "getAllVariations R (js ''boi'') = [js ''boi'', [0x9AC, 0x987]]"
  using assms
  by (simp add: getAllVariations_def set_insertion_order_def banglaToEng_def engToBangla_def
      englishToBangla_def banglaToEnglish_def js_def startsWith_def)

lemma variations_bangla_boi:
  assumes "toLowerCase R [0x9AC, 0x987] = [0x9AC, 0x987]"
  shows "getAllVariations R [0x9AC, 0x987] = [[0x9AC, 0x987], js ''boi'']"
  using assms
  by (simp add: getAllVariations_def set_insertion_order_def banglaToEng_def engToBangla_def
      englishToBangla_def banglaToEnglish_def js_def startsWith_def)

text \<open>
  The depth bound is sound: a call that completes within some depth completes with the
  same score within every larger depth, and a query without other variations is scored
  by a single call.
\<close>

lemma fold_option_None:
  "fold (\<lambda>v acc. case acc of None \<Rightarrow> None | Some t \<Rightarrow> F v t) vs None = None"
  by (induction vs) simp_all

lemma fold_option_mono:
  assumes "\<And>v t y. v \<in> set vs \<Longrightarrow> F v t = Some y \<Longrightarrow> G v t = Some y"
  shows "fold (\<lambda>v acc. case acc of None \<Rightarrow> None | Some t \<Rightarrow> F v t) vs acc = Some (y :: rat) \<Longrightarrow>
         fold (\<lambda>v acc. case acc of None \<Rightarrow> None | Some t \<Rightarrow> G v t) vs acc = Some y"
  using assms
proof (induction vs arbitrary: acc)
  case Nil
  then show ?case by simp
next
  case (Cons v vs)
  show ?case
  proof (cases acc)
    case None
    with Cons.prems(1) show ?thesis by (simp add: fold_option_None)
  next
    case (Some t)
    show ?thesis
    proof (cases "F v t")
      case None
      with Some Cons.prems(1) show ?thesis by (simp add: fold_option_None)
    next
      case (Some z)
      then have "G v t = Some z" using Cons.prems(2) by simp
      with Some \<open>acc = Some t\<close> Cons.prems Cons.IH [of "Some z"] show ?thesis by simp
    qed
  qed
qed

lemma calculateScore_deeper:
  "calculateScore depth R query b = Some x \<Longrightarrow> calculateScore (Suc depth) R query b = Some x"
proof (induction depth arbitrary: query x)
  case 0
  then show ?case by simp
next
  case (Suc depth)
  let ?F = "\<lambda>d variation totalScore.
      if variation \<noteq> query
      then (case calculateScore d R variation b of
              None \<Rightarrow> None
            | Some translitScore \<Rightarrow> Some (totalScore + translitScore * 0.8))
      else Some totalScore"
  have step: "?F depth v t = Some y \<Longrightarrow> ?F (Suc depth) v t = Some y" for v t y
    using Suc.IH [of v] by (auto split: if_splits option.splits)
  from Suc.prems obtain total where
    f: "fold (\<lambda>v acc. case acc of None \<Rightarrow> None | Some t \<Rightarrow> ?F depth v t)
          (getAllVariations R query)
          (Some (add_field R (normalize R query) (book_notes b) 1
             (add_field R (normalize R query) (publisher b) 2
               (add_field R (normalize R query) (author b) 3
                 (0 + getMatchScore R (normalize R query) (name b) * 5))))) = Some total"
    and x: "x = min total 10"
    by (auto simp: Let_def split: option.splits)
  from fold_option_mono [where F = "?F depth" and G = "?F (Suc depth)", OF step f]
  show ?case
    by (subst calculateScore.simps) (simp add: Let_def x del: calculateScore.simps)
qed

lemma calculateScore_returns_without_variations:
  "getAllVariations R query = [query] \<Longrightarrow> \<exists>x. calculateScore (Suc depth) R query b = Some x"
  by (simp add: Let_def)

text \<open>
  Claim C1. \<open>calculateScore\<close> does not return for the query \<open>boi\<close>: its variations
  are \<open>boi\<close> and the Bangla word, the variations of the Bangla word are that word and
  \<open>boi\<close>, and each call scores the other variation by a recursive call. Whatever the
  depth allowed, the call does not complete. This holds on every runtime whose
  \<open>toLowerCase\<close> leaves the two words unchanged.
\<close>

theorem calculateScore_boi_never_returns:
  assumes "toLowerCase R (js ''boi'') = js ''boi''"
    and "toLowerCase R [0x9AC, 0x987] = [0x9AC, 0x987]"
  shows "calculateScore depth R (js ''boi'') b = None"
proof -
  have "calculateScore depth R (js ''boi'') b = None \<and>
        calculateScore depth R [0x9AC, 0x987] b = None"
  proof (induction depth)
    case 0
    show ?case by simp
  next
    case (Suc depth)
    have ne: "js ''boi'' \<noteq> [0x9AC, 0x987]" by (simp add: js_def)
    from Suc ne show ?case
      by (simp add: variations_boi [OF assms(1)] variations_bangla_boi [OF assms(2)]
          Let_def)
  qed
  then show ?thesis ..
qed

theorem calculateScore_boi_never_returns_witness:
  "toLowerCase basic_runtime (js ''boi'') = js ''boi'' \<and>
   toLowerCase basic_runtime [0x9AC, 0x987] = [0x9AC, 0x987] \<and>
   calculateScore 1000 basic_runtime (js ''boi'')
     \<lparr>book_id = js ''1'', name = js ''The Hobbit'', author = None, publisher = None,
      book_notes = None\<rparr> = None"
proof -
  have a: "toLowerCase basic_runtime (js ''boi'') = js ''boi''"
    by (simp add: basic_defs)
  have b: "toLowerCase basic_runtime [0x9AC, 0x987] = [0x9AC, 0x987]"
    by (simp add: basic_defs)
  from calculateScore_boi_never_returns [OF a b] a b show ?thesis by simp
qed

section \<open>Normalization\<close>

lemma space_not_surrogate: "isWhiteSpace c \<Longrightarrow> \<not> isHighSurrogate c \<and> \<not> isLowSurrogate c"
  by (auto simp: isWhiteSpace_def isHighSurrogate_def isLowSurrogate_def)

lemma keepUnit_space: "isWhiteSpace c \<Longrightarrow> keepUnit isLN c"
  using space_not_surrogate by (simp add: keepUnit_def)

lemma isWhiteSpace_32: "isWhiteSpace 32"
  by (simp add: isWhiteSpace_def)

lemma clean_Cons_single:
  "\<not> isHighSurrogate c \<Longrightarrow> clean isLN (c # t) \<longleftrightarrow> keepUnit isLN c \<and> clean isLN t"
  by (cases t) simp_all

lemma clean_Cons_high:
  "isHighSurrogate c \<Longrightarrow>
   clean isLN (c # t) \<longleftrightarrow>
     (\<exists>d t'. t = d # t' \<and> isLowSurrogate d \<and> isLN (codePoint c d) \<and> clean isLN t')"
  by (cases t) (auto simp: keepUnit_def)

lemma stripUnicode_Cons_single:
  "\<not> isHighSurrogate c \<Longrightarrow>
   stripUnicode isLN (c # t) = (if keepUnit isLN c then c # stripUnicode isLN t else stripUnicode isLN t)"
  by (cases t) simp_all

lemma clean_stripUnicode: "clean isLN (stripUnicode isLN s)"
proof (induction isLN s rule: stripUnicode.induct)
  case (3 isLN c d s)
  then show ?case
    by (auto simp: clean_Cons_single keepUnit_def)
qed simp_all

lemma stripUnicode_clean: "clean isLN s \<Longrightarrow> stripUnicode isLN s = s"
  by (induction isLN s rule: stripUnicode.induct) (auto split: if_splits)

lemma clean_dropWhile: "clean isLN s \<Longrightarrow> clean isLN (dropWhile isWhiteSpace s)"
proof (induction s)
  case Nil
  then show ?case by simp
next
  case (Cons c s)
  then show ?case
    using space_not_surrogate [of c] by (auto simp: clean_Cons_single)
qed

lemma clean_collapseWhitespace: "clean isLN s \<Longrightarrow> clean isLN (collapseWhitespace s)"
proof (induction s rule: length_induct)
  case (1 s)
  show ?case
  proof (cases s)
    case Nil
    then show ?thesis by simp
  next
    case (Cons c t)
    show ?thesis
    proof (cases "isWhiteSpace c")
      case True
      then have nh: "\<not> isHighSurrogate c" using space_not_surrogate by blast
      with 1(2) Cons have "clean isLN t" by (simp add: clean_Cons_single)
      then have "clean isLN (dropWhile isWhiteSpace t)" by (rule clean_dropWhile)
      moreover have "length (dropWhile isWhiteSpace t) < length s"
        using Cons length_dropWhile_le [of isWhiteSpace t] by simp
      ultimately have "clean isLN (collapseWhitespace (dropWhile isWhiteSpace t))"
        using 1(1) by blast
      moreover have "\<not> isHighSurrogate 32" by (simp add: isHighSurrogate_def)
      ultimately show ?thesis
        using True Cons keepUnit_space [OF isWhiteSpace_32] by (simp add: clean_Cons_single)
    next
      case False
      show ?thesis
      proof (cases "isHighSurrogate c")
        case nh: False
        with 1(2) Cons have k: "keepUnit isLN c" and "clean isLN t"
          by (simp_all add: clean_Cons_single)
        then have "clean isLN (collapseWhitespace t)" using 1(1) Cons by simp
        with k nh False Cons show ?thesis by (simp add: clean_Cons_single)
      next
        case h: True
        with 1(2) Cons obtain d t' where t: "t = d # t'" and d: "isLowSurrogate d"
          and cp: "isLN (codePoint c d)" and c': "clean isLN t'"
          by (auto simp: clean_Cons_high)
        have nd: "\<not> isWhiteSpace d" using d space_not_surrogate by blast
        have "clean isLN (collapseWhitespace t')" using 1(1) Cons t c' by simp
        with h d cp False nd Cons t show ?thesis by simp
      qed
    qed
  qed
qed

lemma trimEnd_append: "\<exists>w. s = trimEnd s @ w \<and> (\<forall>c\<in>set w. isWhiteSpace c)"
proof (induction s)
  case Nil
  then show ?case by simp
next
  case (Cons c s)
  then obtain w where w: "s = trimEnd s @ w" "\<forall>c\<in>set w. isWhiteSpace c" by blast
  show ?case
  proof (cases "trimEnd s = [] \<and> isWhiteSpace c")
    case True
    with w have "c # s = trimEnd (c # s) @ (c # w) \<and> (\<forall>x\<in>set (c # w). isWhiteSpace x)"
      by auto
    then show ?thesis by blast
  next
    case False
    with w have "c # s = trimEnd (c # s) @ w \<and> (\<forall>x\<in>set w. isWhiteSpace x)"
      by auto
    then show ?thesis by blast
  qed
qed

lemma clean_prefix:
  "clean isLN (a @ w) \<Longrightarrow> \<forall>c\<in>set w. isWhiteSpace c \<Longrightarrow> clean isLN a"
proof (induction a rule: length_induct)
  case (1 a)
  show ?case
  proof (cases a)
    case Nil
    then show ?thesis by simp
  next
    case (Cons c a')
    show ?thesis
    proof (cases "isHighSurrogate c")
      case False
      with 1(2) Cons have "keepUnit isLN c" "clean isLN (a' @ w)"
        by (simp_all add: clean_Cons_single)
      with 1(1,3) Cons False show ?thesis by (simp add: clean_Cons_single)
    next
      case True
      with 1(2) Cons obtain d t' where t: "a' @ w = d # t'" and d: "isLowSurrogate d"
        and cp: "isLN (codePoint c d)" and c': "clean isLN t'"
        by (auto simp: clean_Cons_high)
      have "a' \<noteq> []"
      proof
        assume "a' = []"
        with t have "d \<in> set w" by simp
        with 1(3) d space_not_surrogate show False by blast
      qed
      then obtain a'' where a': "a' = d # a''" and t': "t' = a'' @ w"
        using t by (cases a') auto
      from c' t' 1(1,3) Cons a' have "clean isLN a''" by simp
      with True d cp Cons a' show ?thesis by simp
    qed
  qed
qed

lemma clean_trimEnd: "clean isLN s \<Longrightarrow> clean isLN (trimEnd s)"
  using trimEnd_append [of s] clean_prefix by metis

lemma clean_trim: "clean isLN s \<Longrightarrow> clean isLN (trim s)"
  by (simp add: trim_def trimStart_def clean_dropWhile clean_trimEnd)

lemma single_spaced_Cons:
  "single_spaced (c # t) \<longleftrightarrow>
     (isWhiteSpace c \<longrightarrow> c = 32 \<and> (t = [] \<or> \<not> isWhiteSpace (hd t))) \<and> single_spaced t"
  by (cases t) auto

lemma collapseWhitespace_hd:
  "s \<noteq> [] \<Longrightarrow> \<not> isWhiteSpace (hd s) \<Longrightarrow>
   collapseWhitespace s \<noteq> [] \<and> hd (collapseWhitespace s) = hd s"
  by (cases s) auto

lemma dropWhile_hd: "dropWhile P s \<noteq> [] \<Longrightarrow> \<not> P (hd (dropWhile P s))"
  using hd_dropWhile by blast

lemma single_spaced_collapseWhitespace: "single_spaced (collapseWhitespace s)"
proof (induction s rule: collapseWhitespace.induct)
  case 1
  show ?case by simp
next
  case (2 c s)
  show ?case
  proof (cases "isWhiteSpace c")
    case True
    let ?r = "dropWhile isWhiteSpace s"
    have "collapseWhitespace ?r = [] \<or> \<not> isWhiteSpace (hd (collapseWhitespace ?r))"
    proof (cases "?r = []")
      case True
      then have "collapseWhitespace ?r = []" by (simp only: collapseWhitespace.simps)
      then show ?thesis ..
    next
      case False
      with dropWhile_hd [of isWhiteSpace s] collapseWhitespace_hd [of ?r]
      show ?thesis by simp
    qed
    with True 2 show ?thesis by (simp add: single_spaced_Cons)
  next
    case False
    with 2 show ?thesis by (simp add: single_spaced_Cons)
  qed
qed

lemma collapseWhitespace_single_spaced: "single_spaced s \<Longrightarrow> collapseWhitespace s = s"
proof (induction s)
  case Nil
  then show ?case by simp
next
  case (Cons c s)
  then have "isWhiteSpace c \<Longrightarrow> dropWhile isWhiteSpace s = s"
    by (cases s) (auto simp: single_spaced_Cons)
  with Cons show ?case by (auto simp: single_spaced_Cons)
qed

lemma single_spaced_dropWhile: "single_spaced s \<Longrightarrow> single_spaced (dropWhile P s)"
  by (induction s) (auto simp: single_spaced_Cons)

lemma single_spaced_prefix: "single_spaced (a @ w) \<Longrightarrow> single_spaced a"
proof (induction a)
  case Nil
  then show ?case by simp
next
  case (Cons c a)
  then show ?case
    by (cases a) (auto simp: single_spaced_Cons)
qed

lemma single_spaced_trim: "single_spaced s \<Longrightarrow> single_spaced (trim s)"
proof -
  assume "single_spaced s"
  then have d: "single_spaced (trimStart s)"
    unfolding trimStart_def by (rule single_spaced_dropWhile)
  from trimEnd_append [of "trimStart s"] obtain w where "trimStart s = trim s @ w"
    unfolding trim_def by blast
  with d show ?thesis by (metis single_spaced_prefix)
qed

lemma trimEnd_idem: "trimEnd (trimEnd s) = trimEnd s"
  by (induction s) auto

lemma trimEnd_hd: "s \<noteq> [] \<Longrightarrow> \<not> isWhiteSpace (hd s) \<Longrightarrow>
  trimEnd s \<noteq> [] \<and> hd (trimEnd s) = hd s"
  by (cases s) auto

lemma trim_idem: "trim (trim s) = trim s"
proof (cases "trimStart s = []")
  case True
  then have "trim s = []" by (simp only: trim_def trimEnd.simps)
  then show ?thesis by (simp add: trim_def trimStart_def)
next
  case False
  then have "\<not> isWhiteSpace (hd (trimStart s))"
    unfolding trimStart_def by (rule dropWhile_hd)
  with False have "trimEnd (trimStart s) \<noteq> []" "\<not> isWhiteSpace (hd (trimEnd (trimStart s)))"
    using trimEnd_hd [of "trimStart s"] by simp_all
  then have "trimStart (trimEnd (trimStart s)) = trimEnd (trimStart s)"
    unfolding trimStart_def by (cases "trimEnd (dropWhile isWhiteSpace s)") auto
  then show ?thesis by (simp add: trim_def trimEnd_idem)
qed

lemma set_collapseWhitespace: "set (collapseWhitespace s) \<subseteq> insert 32 (set s)"
proof (induction s rule: collapseWhitespace.induct)
  case 1
  show ?case by simp
next
  case (2 c s)
  have "set (dropWhile isWhiteSpace s) \<subseteq> set s" by (rule set_dropWhileD [THEN subsetI])
  with 2 show ?case by auto
qed

lemma set_trim: "set (trim s) \<subseteq> set s"
proof -
  from trimEnd_append [of "trimStart s"] obtain w where "trimStart s = trim s @ w"
    unfolding trim_def by blast
  then have "set (trim s) \<subseteq> set (trimStart s)" by (metis set_append Un_upper1)
  moreover have "set (trimStart s) \<subseteq> set s"
    unfolding trimStart_def by (rule set_dropWhileD [THEN subsetI])
  ultimately show ?thesis by blast
qed

lemma stripAscii_fixed: "\<forall>c\<in>set s. \<not> asciiPunct c \<Longrightarrow> stripAscii s = s"
  by (simp add: stripAscii_def)

lemma normalize_shape:
  "normalize R s = trim (collapseWhitespace t) \<Longrightarrow>
   (case unicodeLN R of Some isLN \<Rightarrow> clean isLN t | None \<Rightarrow> \<forall>c\<in>set t. \<not> asciiPunct c) \<Longrightarrow>
   toLowerCase R (normalize R s) = normalize R s \<Longrightarrow>
   (\<forall>nfc. normalizeNFC R = Some nfc \<longrightarrow> nfc (normalize R s) = normalize R s) \<Longrightarrow>
   normalize R (normalize R s) = normalize R s"
proof -
  assume r: "normalize R s = trim (collapseWhitespace t)"
    and t: "case unicodeLN R of Some isLN \<Rightarrow> clean isLN t | None \<Rightarrow> \<forall>c\<in>set t. \<not> asciiPunct c"
    and l: "toLowerCase R (normalize R s) = normalize R s"
    and n: "\<forall>nfc. normalizeNFC R = Some nfc \<longrightarrow> nfc (normalize R s) = normalize R s"
  let ?r = "normalize R s"
  have pre: "(case normalizeNFC R of Some nfc \<Rightarrow> nfc (toLowerCase R ?r) | None \<Rightarrow> toLowerCase R ?r) = ?r"
    using l n by (simp split: option.splits)
  have ss: "collapseWhitespace ?r = ?r"
    unfolding r
    by (intro collapseWhitespace_single_spaced single_spaced_trim single_spaced_collapseWhitespace)
  have tr: "trim ?r = ?r"
    unfolding r by (rule trim_idem)
  show ?thesis
  proof (cases "unicodeLN R")
    case None
    with t have "\<forall>c\<in>set t. \<not> asciiPunct c" by simp
    moreover have "\<not> asciiPunct 32" by (simp add: asciiPunct_def)
    ultimately have "\<forall>c\<in>set ?r. \<not> asciiPunct c"
      unfolding r using set_trim [of "collapseWhitespace t"] set_collapseWhitespace [of t]
      by blast
    then have "stripAscii ?r = ?r" by (rule stripAscii_fixed)
    then have "trim (collapseWhitespace (stripAscii ?r)) = ?r"
      using ss tr by simp
    then show ?thesis
      using None pre by (subst normalize_def) (simp add: Let_def)
  next
    case (Some isLN)
    with t have "clean isLN t" by simp
    then have "clean isLN ?r"
      unfolding r by (intro clean_trim clean_collapseWhitespace)
    then have "stripUnicode isLN ?r = ?r" by (rule stripUnicode_clean)
    then have "trim (collapseWhitespace (stripUnicode isLN ?r)) = ?r"
      using ss tr by simp
    then show ?thesis
      using Some pre by (subst normalize_def) (simp add: Let_def)
  qed
qed

text \<open>
  Stripping, collapsing of white space and trimming are idempotent on their own, in the
  Unicode-aware branch and in the ASCII fallback: a second pass can only change a
  normalized string in its first two steps, the lower-casing and the NFC composition.
\<close>

lemma normalize_twice_when_stable:
  assumes "toLowerCase R (normalize R s) = normalize R s"
    and "case normalizeNFC R of
           Some nfc \<Rightarrow> nfc (normalize R s) = normalize R s
         | None \<Rightarrow> True"
  shows "normalize R (normalize R s) = normalize R s"
proof -
  from assms(2)
  have n: "\<forall>nfc. normalizeNFC R = Some nfc \<longrightarrow> nfc (normalize R s) = normalize R s"
    by (simp split: option.splits)
  let ?x = "case normalizeNFC R of Some nfc \<Rightarrow> nfc (toLowerCase R s) | None \<Rightarrow> toLowerCase R s"
  show ?thesis
  proof (cases "unicodeLN R")
    case None
    have "\<forall>c\<in>set (stripAscii ?x). \<not> asciiPunct c" by (simp add: stripAscii_def)
    with None show ?thesis
      by (intro normalize_shape [where t = "stripAscii ?x"] assms(1) n)
         (simp_all add: normalize_def Let_def)
  next
    case (Some isLN)
    then show ?thesis
      by (intro normalize_shape [where t = "stripUnicode isLN ?x"] assms(1) n)
         (simp_all add: normalize_def Let_def clean_stripUnicode)
  qed
qed

lemma norm_jamo: "normalize basic_runtime [0x1100, 0x2E, 0x1161] = [0x1100, 0x1161]"
  by (simp add: basic_defs unit_defs)

lemma norm_jamo2: "normalize basic_runtime [0x1100, 0x1161] = [0xAC00]"
  by (simp add: basic_defs unit_defs)

lemma norm_syllable: "normalize basic_runtime [0xAC00] = [0xAC00]"
  by (simp add: basic_defs unit_defs)

lemma lev_syllable_jamo: "levenshteinDistance [0x1100, 0x1161] [0xAC00] = 2"
  by (simp add: levenshteinDistance_def lev_cell_def set_cell_def upt_rec)

lemma sim_syllable_jamo: "similarity [0xAC00] [0x1100, 0x1161] = 0"
  by (simp add: similarity_def lev_syllable_jamo)

lemma score_jamo:
  "getMatchScore basic_runtime [0x1100, 0x1161] [0x1100, 0x2E, 0x1161] = 0"
  unfolding getMatchScore_def norm_jamo norm_jamo2
  by (simp add: startsWith_def score_word_def sim_syllable_jamo)

lemma variations_jamo:
  "getAllVariations basic_runtime [0x1100, 0x2E, 0x1161] = [[0x1100, 0x2E, 0x1161]]"
  by (simp add: getAllVariations_def set_insertion_order_def banglaToEng_def engToBangla_def
      englishToBangla_def banglaToEnglish_def basic_defs startsWith_def)

text \<open>
  Claim C9. \<open>normalize\<close> is not idempotent. It strips after it composes, so the
  stripping can bring together two code points that the next pass composes: for the
  Hangul consonant U+1100, a full stop and the vowel U+1161 the first pass leaves
  U+1100 U+1161 and the second pass yields the syllable U+AC00. The code relies on
  idempotence: \<open>calculateScore\<close> normalizes the query and \<open>getMatchScore\<close> normalizes
  it again, while the field is normalized once. A record whose name is exactly the
  query then scores 0.
\<close>

theorem normalize_not_idempotent:
  "normalize basic_runtime [0x1100, 0x2E, 0x1161] = [0x1100, 0x1161] \<and>
   normalize basic_runtime (normalize basic_runtime [0x1100, 0x2E, 0x1161]) = [0xAC00] \<and>
   normalize basic_runtime (normalize basic_runtime [0x1100, 0x2E, 0x1161])
     \<noteq> normalize basic_runtime [0x1100, 0x2E, 0x1161] \<and>
   calculateScore 1 basic_runtime [0x1100, 0x2E, 0x1161]
     \<lparr>book_id = js ''b5'', name = [0x1100, 0x2E, 0x1161], author = None,
      publisher = None, book_notes = None\<rparr> = Some 0"
proof -
  have one: "(1::nat) = Suc 0" by simp
  have c: "calculateScore 1 basic_runtime [0x1100, 0x2E, 0x1161]
     \<lparr>book_id = js ''b5'', name = [0x1100, 0x2E, 0x1161], author = None,
      publisher = None, book_notes = None\<rparr> = Some 0"
    unfolding one
    by (simp add: norm_jamo variations_jamo add_field_def score_jamo)
  show ?thesis
    using c by (simp add: norm_jamo norm_jamo2)
qed

section \<open>The two-tier search\<close>

lemma variation_loop:
  "fold (\<lambda>variation acc.
           case acc of
             None \<Rightarrow> None
           | Some ranked \<Rightarrow>
               if variation \<noteq> query
               then (case rank variation of
                       None \<Rightarrow> None
                     | Some variantResults \<Rightarrow> Some (add_unique variantResults ranked))
               else Some ranked)
     vs acc =
   (case acc of
      None \<Rightarrow> None
    | Some ranked \<Rightarrow>
        (case those (map rank (filter (\<lambda>v. v \<noteq> query) vs)) of
           None \<Rightarrow> None
         | Some rankings \<Rightarrow> Some (fold add_unique rankings ranked)))"
proof (induction vs arbitrary: acc)
  case Nil
  then show ?case by (simp split: option.splits)
next
  case (Cons v vs)
  show ?case
    by (simp add: Cons.IH split: option.splits)
qed

lemma searchBooks_indexed:
  "length (likeQuery db (toLowerCase R query)) \<ge> 3 \<Longrightarrow>
   searchBooks depth R db query suggestions =
     Some (likeQuery db (toLowerCase R query), addQuery R query suggestions)"
  by (simp add: searchBooks_def Let_def)

lemma searchBooks_fuzzy:
  "length (likeQuery db (toLowerCase R query)) < 3 \<Longrightarrow>
   searchBooks depth R db query suggestions =
     (case rankResults depth R query (allBooks db) 0.3 of
        None \<Rightarrow> None
      | Some ranked \<Rightarrow>
          (case those (map (\<lambda>v. rankResults depth R v (allBooks db) 0.3)
                         (filter (\<lambda>v. v \<noteq> query) (getAllVariations R query))) of
             None \<Rightarrow> None
           | Some variants \<Rightarrow>
               Some (take 50 (fold add_unique variants ranked),
                     addQuery R query suggestions)))"
  by (auto simp: searchBooks_def Let_def variation_loop split: option.splits)

lemma set_insert_by: "set (insert_by cmp x ys) = insert x (set ys)"
  by (induction ys) auto

lemma distinct_map_insert_by:
  "distinct (map f (insert_by cmp x ys)) \<longleftrightarrow> f x \<notin> f ` set ys \<and> distinct (map f ys)"
  by (induction ys) (auto simp: set_insert_by)

lemma set_sort_by: "set (sort_by cmp xs) = set xs"
  unfolding sort_by_def by (induction xs) (simp_all add: set_insert_by)

lemma distinct_map_sort_by: "distinct (map f (sort_by cmp xs)) \<longleftrightarrow> distinct (map f xs)"
  using set_sort_by [of cmp, unfolded sort_by_def]
  unfolding sort_by_def by (induction xs) (simp_all add: distinct_map_insert_by)

lemma those_map_length: "those (map f xs) = Some ys \<Longrightarrow> length ys = length xs"
  by (induction xs arbitrary: ys) (auto split: option.splits)

lemma rankResults_distinct:
  assumes "rankResults depth R query items threshold = Some ranked"
    and "distinct (map book_id items)"
  shows "distinct (map book_id ranked)"
proof -
  from assms(1) obtain scores
    where sc: "those (map (\<lambda>item. calculateScore depth R query item) items) = Some scores"
      and r: "ranked = map fst (sort_by (\<lambda>a b. snd b - snd a)
                (filter (\<lambda>(item, score). score \<ge> threshold) (zip items scores)))"
    by (auto simp: rankResults_def split: option.splits)
  from those_map_length [OF sc] have "map fst (zip items scores) = items"
    by (simp add: map_fst_zip)
  then have "map (book_id \<circ> fst) (zip items scores) = map book_id items"
    by (metis map_map)
  with assms(2) have "distinct (map (book_id \<circ> fst) (zip items scores))"
    by simp
  then have "distinct (map (book_id \<circ> fst)
      (filter (\<lambda>(item, score). score \<ge> threshold) (zip items scores)))"
    by (rule distinct_map_filter)
  then show ?thesis
    unfolding r by (simp add: distinct_map_sort_by)
qed

lemma ids_first_by_id: "book_id ` set (first_by_id xs) = book_id ` set xs"
  by (induction xs rule: first_by_id.induct) auto

lemma distinct_first_by_id: "distinct (map book_id (first_by_id xs))"
proof (induction xs rule: first_by_id.induct)
  case 1
  show ?case by simp
next
  case (2 b bs)
  have "book_id b \<notin> book_id ` set (filter (\<lambda>x. book_id x \<noteq> book_id b) bs)"
    by auto
  then have "book_id b \<notin> book_id ` set (first_by_id (filter (\<lambda>x. book_id x \<noteq> book_id b) bs))"
    by (simp add: ids_first_by_id)
  with 2 show ?case by simp
qed

lemma first_by_id_distinct: "distinct (map book_id xs) \<Longrightarrow> first_by_id xs = xs"
proof (induction xs)
  case Nil
  then show ?case by simp
next
  case (Cons b bs)
  then have "filter (\<lambda>x. book_id x \<noteq> book_id b) bs = bs"
    by (intro filter_True) (auto simp: image_iff)
  with Cons show ?case by simp
qed

lemma first_by_id_append:
  "first_by_id (xs @ ys) =
     first_by_id xs @ first_by_id (filter (\<lambda>b. book_id b \<notin> book_id ` set xs) ys)"
proof (induction xs arbitrary: ys rule: first_by_id.induct)
  case 1
  show ?case by simp
next
  case (2 b bs)
  let ?bs = "filter (\<lambda>x. book_id x \<noteq> book_id b) bs"
  let ?ys = "filter (\<lambda>x. book_id x \<noteq> book_id b) ys"
  have "filter (\<lambda>x. book_id x \<notin> book_id ` set ?bs) ?ys
        = filter (\<lambda>x. book_id x \<notin> book_id ` set (b # bs)) ys"
    by (auto intro: filter_cong)
  with 2 [of ?ys] show ?case by simp
qed

lemma add_unique_first_by_id:
  "add_unique bs acc =
     acc @ first_by_id (filter (\<lambda>b. book_id b \<notin> book_id ` set acc) bs)"
proof (induction bs arbitrary: acc)
  case Nil
  show ?case by (simp add: add_unique_def)
next
  case (Cons b bs)
  have step: "add_unique (b # bs) acc =
      add_unique bs (if book_id b \<in> book_id ` set acc then acc else acc @ [b])"
    by (auto simp: add_unique_def find_None_iff image_iff)
  show ?case
  proof (cases "book_id b \<in> book_id ` set acc")
    case True
    with step Cons show ?thesis by simp
  next
    case False
    have "filter (\<lambda>x. book_id x \<notin> book_id ` set (acc @ [b])) bs
          = filter (\<lambda>x. book_id x \<noteq> book_id b)
              (filter (\<lambda>x. book_id x \<notin> book_id ` set acc) bs)"
      by (auto intro: filter_cong)
    with False step Cons show ?thesis by simp
  qed
qed

lemma fold_add_unique:
  "fold add_unique variants ranked =
     ranked @ first_by_id (filter (\<lambda>b. book_id b \<notin> book_id ` set ranked) (concat variants))"
proof (induction variants arbitrary: ranked)
  case Nil
  show ?case by simp
next
  case (Cons l ls)
  let ?l = "filter (\<lambda>b. book_id b \<notin> book_id ` set ranked) l"
  let ?c = "filter (\<lambda>b. book_id b \<notin> book_id ` set ranked) (concat ls)"
  have ids: "book_id ` set (add_unique l ranked) = book_id ` set ranked \<union> book_id ` set ?l"
    by (simp add: add_unique_first_by_id ids_first_by_id image_Un)
  have "filter (\<lambda>b. book_id b \<notin> book_id ` set (add_unique l ranked)) (concat ls)
        = filter (\<lambda>b. book_id b \<notin> book_id ` set ?l) ?c"
    unfolding ids by (auto intro: filter_cong)
  then show ?case
    by (simp add: Cons.IH add_unique_first_by_id [of l ranked] first_by_id_append)
qed

lemma fold_add_unique_distinct:
  assumes "distinct (map book_id ranked)"
  shows "fold add_unique variants ranked = first_by_id (concat (ranked # variants))"
  by (simp add: fold_add_unique first_by_id_append first_by_id_distinct [OF assms])

lemma norm_Hobit: "normalize basic_runtime (js ''Hobit'') = js ''hobit''"
  by (simp add: basic_defs unit_defs)

lemma norm_hobit: "normalize basic_runtime (js ''hobit'') = js ''hobit''"
  by (intro normalize_basic_lower_latin) (simp add: js_def)

lemma norm_hobbit: "normalize basic_runtime (js ''hobbit'') = js ''hobbit''"
  by (intro normalize_basic_lower_latin) (simp add: js_def)

lemma norm_dune: "normalize basic_runtime (js ''dune'') = js ''dune''"
  by (intro normalize_basic_lower_latin) (simp add: js_def)

lemma norm_herbert: "normalize basic_runtime (js ''herbert'') = js ''herbert''"
  by (intro normalize_basic_lower_latin) (simp add: js_def)

lemma sim_hobit_hobbit: "similarity [104, 111, 98, 105, 116] [104, 111, 98, 98, 105, 116] = 5 / 6"
  by code_simp

lemma sim_hobit_dune: "similarity [104, 111, 98, 105, 116] [100, 117, 110, 101] = 0"
  by code_simp

lemma sim_hobit_herbert:
  "similarity [104, 111, 98, 105, 116] [104, 101, 114, 98, 101, 114, 116] = 3 / 7"
  by code_simp

lemma score_hobit_hobbit: "getMatchScore basic_runtime (js ''hobit'') (js ''hobbit'') = 5 / 6"
  unfolding getMatchScore_def norm_hobit norm_hobbit
  by (simp add: js_def startsWith_def score_word_def sim_hobit_hobbit)

lemma score_hobit_dune: "getMatchScore basic_runtime (js ''hobit'') (js ''dune'') = 0"
  unfolding getMatchScore_def norm_hobit norm_dune
  by (simp add: js_def startsWith_def score_word_def sim_hobit_dune)

lemma score_hobit_herbert: "getMatchScore basic_runtime (js ''hobit'') (js ''herbert'') = 0"
  unfolding getMatchScore_def norm_hobit norm_herbert
  by (simp add: js_def startsWith_def score_word_def sim_hobit_herbert)

lemma variations_hobit: "getAllVariations basic_runtime (js ''hobit'') = [js ''hobit'']"
  by (simp add: getAllVariations_def set_insertion_order_def banglaToEng_def engToBangla_def
      englishToBangla_def banglaToEnglish_def basic_defs startsWith_def)

lemma variations_Hobit:
  "getAllVariations basic_runtime (js ''Hobit'') = [js ''Hobit'', js ''hobit'']"
  by (simp add: getAllVariations_def set_insertion_order_def banglaToEng_def engToBangla_def
      englishToBangla_def banglaToEnglish_def basic_defs startsWith_def)

lemma Hobit_neq: "js ''hobit'' \<noteq> js ''Hobit''"
  by (simp add: js_def)

lemma herbert_neq: "js ''herbert'' \<noteq> []"
  by (simp add: js_def)

lemma hobit_neq_Nil: "js ''hobit'' \<noteq> []"
  by (simp add: js_def)

lemma hobbit_fields:
  "book_id hobbit_book = js ''b1''" "name hobbit_book = js ''hobbit''"
  "author hobbit_book = None" "publisher hobbit_book = None" "book_notes hobbit_book = None"
  by (simp_all add: hobbit_book_def)

lemma dune_fields:
  "book_id dune_book = js ''b2''" "name dune_book = js ''dune''"
  "author dune_book = Some (js ''herbert'')" "publisher dune_book = None"
  "book_notes dune_book = None"
  by (simp_all add: dune_book_def)

lemma calc_hobit_hobbit:
  "calculateScore (Suc d) basic_runtime (js ''hobit'') hobbit_book = Some (25 / 6)"
  by (simp add: norm_hobit variations_hobit hobbit_fields add_field_def score_hobit_hobbit)

lemma calc_hobit_dune:
  "calculateScore (Suc d) basic_runtime (js ''hobit'') dune_book = Some 0"
  by (simp add: norm_hobit variations_hobit dune_fields add_field_def score_hobit_dune
      score_hobit_herbert herbert_neq)

lemma calc_Hobit_hobbit:
  "calculateScore (Suc (Suc d)) basic_runtime (js ''Hobit'') hobbit_book = Some (15 / 2)"
  using Hobit_neq
  by (subst calculateScore.simps)
     (simp add: norm_Hobit variations_Hobit hobbit_fields add_field_def score_hobit_hobbit
        calc_hobit_hobbit del: calculateScore.simps)

lemma calc_Hobit_dune:
  "calculateScore (Suc (Suc d)) basic_runtime (js ''Hobit'') dune_book = Some 0"
  using Hobit_neq
  by (subst calculateScore.simps)
     (simp add: norm_Hobit variations_Hobit dune_fields add_field_def score_hobit_dune
        score_hobit_herbert herbert_neq calc_hobit_dune del: calculateScore.simps)

lemma rank_hobit:
  "rankResults (Suc d) basic_runtime (js ''hobit'') [dune_book, hobbit_book] (3 / 10)
     = Some [hobbit_book]"
  by (simp add: rankResults_def calc_hobit_dune calc_hobit_hobbit sort_by_def
      del: calculateScore.simps)

lemma rank_Hobit:
  "rankResults (Suc (Suc d)) basic_runtime (js ''Hobit'') [dune_book, hobbit_book] (3 / 10)
     = Some [hobbit_book]"
  by (simp add: rankResults_def calc_Hobit_dune calc_Hobit_hobbit sort_by_def
      del: calculateScore.simps)

lemma add_unique_hobbit: "add_unique [hobbit_book] [hobbit_book] = [hobbit_book]"
  by (simp add: add_unique_def)

lemma search_Hobit:
  "searchBooks (Suc (Suc d)) basic_runtime (sample_db [] [dune_book, hobbit_book]) (js ''Hobit'') []
     = Some ([hobbit_book], [js ''hobit''])"
  using Hobit_neq hobit_neq_Nil
  by (simp add: searchBooks_def sample_db_def rank_Hobit rank_hobit variations_Hobit
      add_unique_hobbit addQuery_def norm_Hobit Let_def del: calculateScore.simps)

lemma norm_e: "normalize basic_runtime (js ''e'') = js ''e''"
  by (intro normalize_basic_lower_latin) (simp add: js_def)

lemma sample_ids_distinct: "distinct (map book_id [dune_book, hobbit_book])"
  by (simp add: dune_fields hobbit_fields js_def)

text \<open>
  Claim C4. When the indexed pass returns 3 or more records, \<open>searchBooks\<close> returns
  exactly those records, whatever the catalog and without scoring anything (the result
  does not depend on the depth allowed). When it returns fewer than 3, the result is
  built from the entire catalog: \<open>rankResults\<close> with threshold 0.3 on the query, one
  more pass of \<open>rankResults\<close> with threshold 0.3 per variation other than the query,
  merged and cut to 50 records. Either way the query is recorded.
\<close>

theorem searchBooks_escalation:
  "(length (likeQuery db (toLowerCase R query)) \<ge> 3 \<longrightarrow>
      searchBooks depth R db query suggestions =
        Some (likeQuery db (toLowerCase R query), addQuery R query suggestions))
   \<and>
   (length (likeQuery db (toLowerCase R query)) < 3 \<longrightarrow>
      searchBooks depth R db query suggestions =
        (case rankResults depth R query (allBooks db) 0.3 of
           None \<Rightarrow> None
         | Some ranked \<Rightarrow>
             (case those (map (\<lambda>v. rankResults depth R v (allBooks db) 0.3)
                            (filter (\<lambda>v. v \<noteq> query) (getAllVariations R query))) of
                None \<Rightarrow> None
              | Some variants \<Rightarrow>
                  Some (take 50 (fold add_unique variants ranked),
                        addQuery R query suggestions))))"
  using searchBooks_indexed searchBooks_fuzzy by blast

theorem searchBooks_escalation_witness:
  "length (likeQuery (sample_db [emma_book, eragon_book, dune_book]
                        [dune_book, hobbit_book, emma_book, eragon_book])
             (toLowerCase basic_runtime (js ''e''))) \<ge> 3 \<and>
   searchBooks 0 basic_runtime
     (sample_db [emma_book, eragon_book, dune_book]
        [dune_book, hobbit_book, emma_book, eragon_book]) (js ''e'') []
     = Some ([emma_book, eragon_book, dune_book], [js ''e'']) \<and>
   length (likeQuery (sample_db [] [dune_book, hobbit_book])
             (toLowerCase basic_runtime (js ''Hobit''))) < 3 \<and>
   searchBooks 2 basic_runtime (sample_db [] [dune_book, hobbit_book]) (js ''Hobit'') []
     = Some ([hobbit_book], [js ''hobit''])"
proof -
  let ?db3 = "sample_db [emma_book, eragon_book, dune_book]
                [dune_book, hobbit_book, emma_book, eragon_book]"
  let ?db0 = "sample_db [] [dune_book, hobbit_book]"
  have a: "length (likeQuery ?db3 (toLowerCase basic_runtime (js ''e''))) \<ge> 3"
    by (simp add: sample_db_def)
  have b: "length (likeQuery ?db0 (toLowerCase basic_runtime (js ''Hobit''))) < 3"
    by (simp add: sample_db_def)
  have e: "addQuery basic_runtime (js ''e'') [] = [js ''e'']"
    unfolding addQuery_def norm_e by (simp add: js_def)
  have l: "likeQuery ?db3 (toLowerCase basic_runtime (js ''e'')) = [emma_book, eragon_book, dune_book]"
    by (simp add: sample_db_def)
  have two: "(2::nat) = Suc (Suc 0)" by simp
  from searchBooks_escalation [of ?db3 basic_runtime "js ''e''" 0 "[]"] a
  have 1: "searchBooks 0 basic_runtime ?db3 (js ''e'') []
      = Some ([emma_book, eragon_book, dune_book], [js ''e''])"
    unfolding l e by blast
  from searchBooks_escalation [of ?db0 basic_runtime "js ''Hobit''" 2 "[]"] b
  have "searchBooks 2 basic_runtime ?db0 (js ''Hobit'') [] =
        (case rankResults 2 basic_runtime (js ''Hobit'') (allBooks ?db0) 0.3 of
           None \<Rightarrow> None
         | Some ranked \<Rightarrow>
             (case those (map (\<lambda>v. rankResults 2 basic_runtime v (allBooks ?db0) 0.3)
                            (filter (\<lambda>v. v \<noteq> js ''Hobit'')
                               (getAllVariations basic_runtime (js ''Hobit'')))) of
                None \<Rightarrow> None
              | Some variants \<Rightarrow>
                  Some (take 50 (fold add_unique variants ranked),
                        addQuery basic_runtime (js ''Hobit'') [])))"
    by blast
  also have "\<dots> = Some ([hobbit_book], [js ''hobit''])"
    unfolding two using Hobit_neq hobit_neq_Nil
    by (simp add: sample_db_def rank_Hobit rank_hobit variations_Hobit
        add_unique_hobbit addQuery_def norm_Hobit Let_def del: calculateScore.simps)
  finally show ?thesis using a b 1 by blast
qed

text \<open>
  Claim C6. In a catalog whose records carry pairwise distinct ids, the merged result
  of the fuzzy escalation holds each id at most once and at most 50 records; it is the
  first 50 records of the ranked lists put one after the other, with only the first
  occurrence of each id kept.
\<close>

theorem searchBooks_merge_dedup:
  assumes "distinct (map book_id (allBooks db))"
    and "length (likeQuery db (toLowerCase R query)) < 3"
    and "searchBooks depth R db query suggestions = Some (results, suggestions')"
  shows "distinct (map book_id results) \<and> length results \<le> 50 \<and>
         (\<exists>rankings. ranked_lists depth R db query = Some rankings \<and>
                      results = take 50 (first_by_id (concat rankings)))"
proof -
  from assms(3) obtain ranked variants
    where r: "rankResults depth R query (allBooks db) 0.3 = Some ranked"
      and v: "those (map (\<lambda>v. rankResults depth R v (allBooks db) 0.3)
                (filter (\<lambda>v. v \<noteq> query) (getAllVariations R query))) = Some variants"
      and res: "results = take 50 (fold add_unique variants ranked)"
    unfolding searchBooks_fuzzy [OF assms(2)] by (auto split: option.splits)
  have d: "distinct (map book_id ranked)"
    by (rule rankResults_distinct [OF r assms(1)])
  have m: "fold add_unique variants ranked = first_by_id (concat (ranked # variants))"
    by (rule fold_add_unique_distinct [OF d])
  have "distinct (map book_id (fold add_unique variants ranked))"
    unfolding m by (rule distinct_first_by_id)
  then have 1: "distinct (map book_id results)"
    unfolding res by (simp add: take_map [symmetric] distinct_take)
  have 2: "length results \<le> 50"
    unfolding res by simp
  have "ranked_lists depth R db query = Some (ranked # variants)"
    by (simp add: ranked_lists_def r v)
  with res m have "\<exists>rankings. ranked_lists depth R db query = Some rankings \<and>
      results = take 50 (first_by_id (concat rankings))"
    by (intro exI [of _ "ranked # variants"]) simp
  with 1 2 show ?thesis by blast
qed

theorem searchBooks_merge_dedup_witness:
  "distinct (map book_id (allBooks (sample_db [] [dune_book, hobbit_book]))) \<and>
   length (likeQuery (sample_db [] [dune_book, hobbit_book])
             (toLowerCase basic_runtime (js ''Hobit''))) < 3 \<and>
   searchBooks 2 basic_runtime (sample_db [] [dune_book, hobbit_book]) (js ''Hobit'') []
     = Some ([hobbit_book], [js ''hobit'']) \<and>
   ranked_lists 2 basic_runtime (sample_db [] [dune_book, hobbit_book]) (js ''Hobit'')
     = Some [[hobbit_book], [hobbit_book]] \<and>
   distinct (map book_id [hobbit_book]) \<and> length [hobbit_book] \<le> 50 \<and>
   [hobbit_book] = take 50 (first_by_id (concat [[hobbit_book], [hobbit_book]]))"
proof -
  let ?db = "sample_db [] [dune_book, hobbit_book]"
  have two: "(2::nat) = Suc (Suc 0)" by simp
  have d: "distinct (map book_id (allBooks ?db))"
    using sample_ids_distinct by (simp add: sample_db_def)
  have l: "length (likeQuery ?db (toLowerCase basic_runtime (js ''Hobit''))) < 3"
    by (simp add: sample_db_def)
  have s: "searchBooks 2 basic_runtime ?db (js ''Hobit'') [] = Some ([hobbit_book], [js ''hobit''])"
    unfolding two by (rule search_Hobit)
  have r: "ranked_lists 2 basic_runtime ?db (js ''Hobit'') = Some [[hobbit_book], [hobbit_book]]"
    unfolding two using Hobit_neq
    by (simp add: ranked_lists_def sample_db_def rank_Hobit rank_hobit variations_Hobit
        del: calculateScore.simps)
  from searchBooks_merge_dedup [OF d l s] d l s r show ?thesis
    by auto
qed

section \<open>The search on a query of punctuation\<close>

lemma norm_punct: "normalize basic_runtime (js ''?!'') = []"
  by (simp add: basic_defs unit_defs)

lemma norm_Nil: "normalize basic_runtime [] = []"
  by (simp add: basic_defs unit_defs)

lemma score_Nil: "getMatchScore basic_runtime [] text = 1"
  using empty_normalized_query [OF norm_Nil] by simp

lemma variations_punct: "getAllVariations basic_runtime (js ''?!'') = [js ''?!'']"
  by (simp add: getAllVariations_def set_insertion_order_def banglaToEng_def engToBangla_def
      englishToBangla_def banglaToEnglish_def basic_defs startsWith_def)

lemma emma_fields:
  "book_id emma_book = js ''b3''" "name emma_book = js ''emma''"
  "author emma_book = Some (js ''austen'')" "publisher emma_book = None"
  "book_notes emma_book = None"
  by (simp_all add: emma_book_def)

lemma eragon_fields:
  "book_id eragon_book = js ''b4''" "name eragon_book = js ''eragon''"
  "author eragon_book = None" "publisher eragon_book = None" "book_notes eragon_book = None"
  by (simp_all add: eragon_book_def)

lemma austen_neq: "js ''austen'' \<noteq> []"
  by (simp add: js_def)

lemma calc_punct_dune: "calculateScore (Suc d) basic_runtime (js ''?!'') dune_book = Some 8"
  by (simp add: norm_punct variations_punct dune_fields add_field_def score_Nil herbert_neq)

lemma calc_punct_hobbit: "calculateScore (Suc d) basic_runtime (js ''?!'') hobbit_book = Some 5"
  by (simp add: norm_punct variations_punct hobbit_fields add_field_def score_Nil)

lemma calc_punct_emma: "calculateScore (Suc d) basic_runtime (js ''?!'') emma_book = Some 8"
  by (simp add: norm_punct variations_punct emma_fields add_field_def score_Nil austen_neq)

lemma calc_punct_eragon: "calculateScore (Suc d) basic_runtime (js ''?!'') eragon_book = Some 5"
  by (simp add: norm_punct variations_punct eragon_fields add_field_def score_Nil)

lemma rank_punct:
  "rankResults (Suc d) basic_runtime (js ''?!'')
     [dune_book, hobbit_book, emma_book, eragon_book] (3 / 10)
     = Some [dune_book, emma_book, hobbit_book, eragon_book]"
  by (simp add: rankResults_def calc_punct_dune calc_punct_hobbit calc_punct_emma
      calc_punct_eragon sort_by_def del: calculateScore.simps)

text \<open>
  Claim C3. The matching and scoring path has no case for a query that normalizes to
  the empty string, as the suggestion path has (\<open>getSuggestions\<close> returns the empty
  list, \<open>addQuery\<close> records nothing). For the query \<open>?!\<close>, which the search box lets
  through, \<open>fuzzyMatch\<close> is true, \<open>getMatchScore\<close> is 1, every record scores at
  least 5, and the search returns the whole catalog.
\<close>

theorem empty_query_returns_catalog:
  "normalize basic_runtime (js ''?!'') = [] \<and>
   fuzzyMatch basic_runtime (js ''?!'') (js ''hobbit'') (6 / 10) = True \<and>
   getMatchScore basic_runtime (js ''?!'') (js ''hobbit'') = 1 \<and>
   calculateScore 1 basic_runtime (js ''?!'') hobbit_book = Some 5 \<and>
   searchBooks 1 basic_runtime
     (sample_db [] [dune_book, hobbit_book, emma_book, eragon_book]) (js ''?!'') []
     = Some ([dune_book, emma_book, hobbit_book, eragon_book], []) \<and>
   getSuggestions basic_runtime [js ''hobbit''] (js ''?!'') 5 = []"
proof -
  have one: "(1::nat) = Suc 0" by simp
  have s: "searchBooks 1 basic_runtime
     (sample_db [] [dune_book, hobbit_book, emma_book, eragon_book]) (js ''?!'') []
     = Some ([dune_book, emma_book, hobbit_book, eragon_book], [])"
    unfolding one
    by (simp add: searchBooks_def sample_db_def rank_punct variations_punct addQuery_def
        norm_punct del: calculateScore.simps)
  have c: "calculateScore 1 basic_runtime (js ''?!'') hobbit_book = Some 5"
    unfolding one by (rule calc_punct_hobbit)
  have g: "getSuggestions basic_runtime [js ''hobbit''] (js ''?!'') 5 = []"
    by (simp add: getSuggestions_def norm_punct)
  from empty_normalized_query [OF norm_punct, of "js ''hobbit''" "6 / 10"] norm_punct s c g
  show ?thesis by simp
qed

end
